theory Spec2Isabelle
  imports Complex_Main "HOL-Library.AList" "HOL-Library.Sublist"
begin

section \<open>JavaScript numbers\<close>

text \<open>
  A JavaScript number is an IEEE 754 double: a finite value, an infinity or \<^verbatim>\<open>NaN\<close>.
  \<open>Fin x\<close> is the finite double whose value is the rational \<open>x\<close>. The two zeros are one
  value here: the operations below give the same result for both, up to the sign of a
  zero result.
\<close>

datatype jsnum = Fin rat | PosInf | NegInf | NaN

text \<open>
  Rounding a real result to a double: to the nearest representable value, a tie going
  to the even significand. A double has a significand of 53 bits, so a value \<open>x\<close> with
  \<^verbatim>\<open>2^e <= |x| < 2^(e+1)\<close> is rounded to a multiple of \<^verbatim>\<open>2^(e-52)\<close>; below the normal
  range (\<^verbatim>\<open>e < -1022\<close>) the spacing stays \<^verbatim>\<open>2^(-1074)\<close>. \<open>bitlen n\<close> is the number of binary
  digits of a positive integer, \<open>exponent x\<close> is the \<open>e\<close> above, found from the bit
  lengths of numerator and denominator, and \<open>ulp x\<close> is the spacing of the doubles
  around \<open>x\<close>. A rounded result of magnitude \<^verbatim>\<open>2^1024\<close> or more is an infinity.
\<close>

definition round_half_even :: "rat \<Rightarrow> int" where
  "round_half_even t =
     (let f = \<lfloor>t\<rfloor>; d = t - of_int f in
      if d < 1 / 2 then f else if 1 / 2 < d then f + 1 else if even f then f else f + 1)"

function bitlen :: "int \<Rightarrow> int" where
  "bitlen n = (if n \<le> 0 then 0 else 1 + bitlen (n div 2))"
  by auto
termination
  by (relation "measure nat") auto

declare bitlen.simps [simp del]

definition exponent :: "rat \<Rightarrow> int" where
  "exponent x =
     (case quotient_of x of (p, q) \<Rightarrow>
        let e0 = bitlen p - bitlen q in
        if x < 2 powi e0 then e0 - 1 else e0)"

definition ulp :: "rat \<Rightarrow> rat" where
  "ulp x = 2 powi (max (exponent \<bar>x\<bar>) (- 1022) - 52)"

definition round_double :: "rat \<Rightarrow> rat" where
  "round_double x =
     (if x = 0 then 0 else sgn x * (ulp x * of_int (round_half_even (\<bar>x\<bar> / ulp x))))"

definition double_limit :: rat where
  "double_limit = 2 ^ 1024"

definition js_round :: "rat \<Rightarrow> jsnum" where
  "js_round r =
     (let d = round_double r in
      if double_limit \<le> d then PosInf else if d \<le> - double_limit then NegInf else Fin d)"

text \<open>
  The rationals that are the value of a finite double: rounding leaves them alone and
  they are below the overflow threshold. A \<open>Fin x\<close> that the program holds has such
  an \<open>x\<close>.
\<close>

definition is_double :: "rat \<Rightarrow> bool" where
  "is_double x = (round_double x = x \<and> \<bar>x\<bar> < double_limit)"

text \<open>\<^verbatim>\<open>a < b\<close>: false whenever an operand is \<^verbatim>\<open>NaN\<close>.\<close>

fun js_less :: "jsnum \<Rightarrow> jsnum \<Rightarrow> bool" where
  "js_less (Fin a) (Fin b) = (a < b)"
| "js_less (Fin a) PosInf = True"
| "js_less NegInf (Fin b) = True"
| "js_less NegInf PosInf = True"
| "js_less _ _ = False"

text \<open>
  \<^verbatim>\<open>a / b\<close> for two numbers that are integers: the rounded quotient; division by zero
  gives an infinity, or \<^verbatim>\<open>NaN\<close> for \<^verbatim>\<open>0 / 0\<close>.
\<close>

definition js_div :: "int \<Rightarrow> int \<Rightarrow> jsnum" where
  "js_div a b =
     (if b \<noteq> 0 then js_round (of_int a / of_int b)
      else if 0 < a then PosInf else if a < 0 then NegInf else NaN)"

text \<open>
  \<^verbatim>\<open>a * b\<close>: the rounded product of two finite numbers; an infinity times zero is
  \<^verbatim>\<open>NaN\<close>, an infinity times anything else an infinity of the product's sign.
\<close>

definition inf_of_sign :: "rat \<Rightarrow> jsnum" where
  "inf_of_sign x = (if x = 0 then NaN else if 0 < x then PosInf else NegInf)"

fun js_times :: "jsnum \<Rightarrow> jsnum \<Rightarrow> jsnum" where
  "js_times (Fin x) (Fin y) = js_round (x * y)"
| "js_times (Fin x) PosInf = inf_of_sign x"
| "js_times (Fin x) NegInf = inf_of_sign (- x)"
| "js_times PosInf (Fin y) = inf_of_sign y"
| "js_times NegInf (Fin y) = inf_of_sign (- y)"
| "js_times PosInf PosInf = PosInf"
| "js_times NegInf NegInf = PosInf"
| "js_times PosInf NegInf = NegInf"
| "js_times NegInf PosInf = NegInf"
| "js_times _ _ = NaN"

text \<open>
  \<^verbatim>\<open>2 ** n\<close> for a non-negative integer \<open>n\<close>: the power itself, which is a double, up
  to \<^verbatim>\<open>2^1023\<close>, and \<^verbatim>\<open>Infinity\<close> from \<open>n = 1024\<close> on.
\<close>

definition js_pow2 :: "nat \<Rightarrow> jsnum" where
  "js_pow2 n = (if n < 1024 then Fin (2 ^ n) else PosInf)"

text \<open>\<^verbatim>\<open>Math.min(a, b)\<close>: \<^verbatim>\<open>NaN\<close> when an argument is \<^verbatim>\<open>NaN\<close>, else the smaller one.\<close>

fun js_min :: "jsnum \<Rightarrow> jsnum \<Rightarrow> jsnum" where
  "js_min NaN b = NaN"
| "js_min a NaN = NaN"
| "js_min a b = (if js_less b a then b else a)"


section \<open>Backoff schedule (exponentialBackoff, in src/src/core/session.ts)\<close>

text \<open>
  \<^verbatim>\<open>export function exponentialBackoff(attempt: number, base: number, cap: number) {
    return Math.min(base * 2 ** attempt, cap)
  }\<close>
  The attempt is a loop counter starting at 0 in the only caller, a natural number
  here; base and cap are any numbers.
\<close>

definition exponentialBackoff :: "nat \<Rightarrow> jsnum \<Rightarrow> jsnum \<Rightarrow> jsnum" where
  "exponentialBackoff attempt base cap = js_min (js_times base (js_pow2 attempt)) cap"


section \<open>Pool: leasing and load balancing (class ComfyUIPool, in src/eslint.config.mjs)\<close>

text \<open>
  The pool keeps four parallel arrays: \<^verbatim>\<open>clients\<close>, \<^verbatim>\<open>queues\<close>, \<^verbatim>\<open>sessionCounts\<close> and
  \<^verbatim>\<open>maxConcurrencies\<close>. The queue of an instance is only handed out together with its
  client (same index), so the model keeps the client list and the two number arrays.
  Session counts and caps are integers. A JavaScript array also accepts writes at an
  index that is not an element position: \<^verbatim>\<open>sessionCounts[-1]++\<close> stores \<^verbatim>\<open>NaN\<close> under
  the property \<^verbatim>\<open>-1\<close> and leaves the elements alone. \<open>nanSlots\<close> records the
  out-of-range indices at which such a \<^verbatim>\<open>NaN\<close> has been stored.
\<close>

record 'c pool =
  clients :: "'c list"
  sessionCounts :: "int list"
  maxConcurrencies :: "int list"
  nanSlots :: "int set"

text \<open>
  The constructor: \<^verbatim>\<open>if (!nodes.length) throw new Error('Must configure at least one client')\<close>,
  then one client and one queue (\<^verbatim>\<open>new PQueue({ concurrency: o.maxConcurrency ?? 1 })\<close>)
  per node, \<^verbatim>\<open>sessionCounts = nodes.map(() => 0)\<close> and
  \<^verbatim>\<open>maxConcurrencies = nodes.map(node => node.maxConcurrency ?? 1)\<close>.
  A node is its client together with its optional \<^verbatim>\<open>maxConcurrency\<close>; the queues are
  left out. An error is an \<^verbatim>\<open>Error\<close> with its message, or a \<^verbatim>\<open>TypeError\<close> of the runtime.
\<close>

datatype error = Error string | TypeError

definition new_pool :: "('c \<times> int option) list \<Rightarrow> error + 'c pool" where
  "new_pool nodes =
     (if nodes = [] then Inl (Error ''Must configure at least one client'')
      else Inr \<lparr> clients = map fst nodes,
                 sessionCounts = map (\<lambda>_. 0) nodes,
                 maxConcurrencies = map (\<lambda>node. case snd node of None \<Rightarrow> 1 | Some m \<Rightarrow> m) nodes,
                 nanSlots = {} \<rparr>)"

text \<open>
  The load ratio \<^verbatim>\<open>sessionCounts[i] / maxConcurrencies[i]\<close> is the double \<open>js_div\<close>
  gives, and \<^verbatim>\<open>ratio < bestRatio\<close> compares doubles.
\<close>

text \<open>
  The selection loop of \<^verbatim>\<open>acquire\<close>, over the indices still to visit:
  \<^verbatim>\<open>let best = -1
  let bestRatio = 1
  for (let i = 0; i < this.clients.length; i++) {
    const ratio = this.sessionCounts[i]! / this.maxConcurrencies[i]!
    if (ratio < bestRatio && this.sessionCounts[i]! < this.maxConcurrencies[i]!) {
      bestRatio = ratio
      best = i
    }
  }\<close>
\<close>

fun scan :: "'c pool \<Rightarrow> nat list \<Rightarrow> int \<times> jsnum \<Rightarrow> int \<times> jsnum" where
  "scan p [] (best, bestRatio) = (best, bestRatio)"
| "scan p (i # is) (best, bestRatio) =
     (let ratio = js_div (sessionCounts p ! i) (maxConcurrencies p ! i) in
      if js_less ratio bestRatio \<and> sessionCounts p ! i < maxConcurrencies p ! i
      then scan p is (int i, ratio)
      else scan p is (best, bestRatio))"

definition select_best :: "'c pool \<Rightarrow> int" where
  "select_best p = fst (scan p [0..<length (clients p)] (- 1, Fin 1))"

text \<open>Reading an array at an index: \<^verbatim>\<open>undefined\<close> (\<open>None\<close>) outside the elements.\<close>

definition js_index :: "'a list \<Rightarrow> int \<Rightarrow> 'a option" where
  "js_index xs i = (if 0 \<le> i \<and> nat i < length xs then Some (xs ! nat i) else None)"

text \<open>
  \<^verbatim>\<open>this.sessionCounts[best]!++\<close>: an element is incremented; at any other index
  \<^verbatim>\<open>undefined + 1\<close> is \<^verbatim>\<open>NaN\<close>, stored under that property.
\<close>

definition increment :: "int \<Rightarrow> 'c pool \<Rightarrow> 'c pool" where
  "increment best p =
     (case js_index (sessionCounts p) best of
        Some c \<Rightarrow> p\<lparr>sessionCounts := (sessionCounts p)[nat best := c + 1]\<rparr>
      | None \<Rightarrow> p\<lparr>nanSlots := insert best (nanSlots p)\<rparr>)"

text \<open>
  The lease: the client at the chosen index (\<^verbatim>\<open>this.clients[best]!\<close>, \<^verbatim>\<open>undefined\<close> when
  there is none) and the index its \<^verbatim>\<open>release\<close> closure has captured.
  \<^verbatim>\<open>release: () => {
    this.sessionCounts[best]! = Math.max(0, this.sessionCounts[best]! - 1)
  }\<close>
  \<^verbatim>\<open>Math.max(0, NaN)\<close> is \<^verbatim>\<open>NaN\<close>.
\<close>

record 'c lease =
  lease_client :: "'c option"
  lease_index :: int

definition release :: "int \<Rightarrow> 'c pool \<Rightarrow> 'c pool" where
  "release best p =
     (case js_index (sessionCounts p) best of
        Some c \<Rightarrow> p\<lparr>sessionCounts := (sessionCounts p)[nat best := max 0 (c - 1)]\<rparr>
      | None \<Rightarrow> p\<lparr>nanSlots := insert best (nanSlots p)\<rparr>)"

text \<open>
  \<^verbatim>\<open>acquire(): ClientLease | null\<close> returns the lease object after the increment; the
  source has no branch that returns \<^verbatim>\<open>null\<close>.
\<close>

definition acquire :: "'c pool \<Rightarrow> 'c lease option \<times> 'c pool" where
  "acquire p =
     (let best = select_best p in
      (Some \<lparr> lease_client = js_index (clients p) best, lease_index = best \<rparr>,
       increment best p))"

text \<open>
  The metrics accessor reports, per instance,
  \<^verbatim>\<open>available: this.sessionCounts[i]! < this.maxConcurrencies[i]!\<close>.
\<close>

definition available :: "'c pool \<Rightarrow> nat \<Rightarrow> bool" where
  "available p i = (sessionCounts p ! i < maxConcurrencies p ! i)"



section \<open>Session (class ComfyUISession, in src/src/core/session.ts)\<close>

record ('c, 'pl) session =
  closed :: bool
  lease :: "'c lease"
  pipeline :: "'pl option"

text \<open>
  \<^verbatim>\<open>createSession(pipeline?) {
    const lease = this.acquire()
    if (!lease) return null
    return new ComfyUISession(lease, pipeline)
  }\<close>
\<close>

definition createSession :: "'pl option \<Rightarrow> 'c pool \<Rightarrow> ('c, 'pl) session option \<times> 'c pool" where
  "createSession pl p =
     (case acquire p of
        (None, p') \<Rightarrow> (None, p')
      | (Some l, p') \<Rightarrow> (Some \<lparr> closed = False, lease = l, pipeline = pl \<rparr>, p'))"

text \<open>
  \<^verbatim>\<open>close() { if (!this.closed) { this.closed = true; this.lease.release() } }\<close>
\<close>

definition close :: "('c, 'pl) session \<Rightarrow> 'c pool \<Rightarrow> ('c, 'pl) session \<times> 'c pool" where
  "close s p =
     (if \<not> closed s then (s\<lparr>closed := True\<rparr>, release (lease_index (lease s)) p)
      else (s, p))"

text \<open>
  \<^verbatim>\<open>withSession(fn, pipeline?)\<close>: the callback receives the session and may use it and
  the pool; it is modelled as a function of the session and the pool state that returns
  its result (or the error it throws) and the states it leaves. The \<^verbatim>\<open>finally\<close> block
  closes the session in both cases.
\<close>

definition saturation_error :: error where
  "saturation_error =
     Error ''No available clients in pool - all clients have reached their concurrency limit''"

definition withSession ::
  "(('c, 'pl) session \<Rightarrow> 'c pool \<Rightarrow> (error + 'r) \<times> ('c, 'pl) session \<times> 'c pool) \<Rightarrow>
   'pl option \<Rightarrow> 'c pool \<Rightarrow> (error + 'r) \<times> 'c pool" where
  "withSession fn pl p =
     (case createSession pl p of
        (None, p') \<Rightarrow> (Inl saturation_error, p')
      | (Some s, p') \<Rightarrow>
          (case fn s p' of (r, s', p'') \<Rightarrow> (r, snd (close s' p''))))"

text \<open>
  \<^verbatim>\<open>private assertOpen() { if (this.closed) throw new Error('ComfyUISession already closed') }\<close>
\<close>

definition assertOpen :: "('c, 'pl) session \<Rightarrow> error + unit" where
  "assertOpen s = (if closed s then Inl (Error ''ComfyUISession already closed'') else Inr ())"

text \<open>
  \<^verbatim>\<open>queue\<close>, \<^verbatim>\<open>uploadFile\<close> and \<^verbatim>\<open>getHistory\<close> of the session have one shape:
  \<^verbatim>\<open>this.assertOpen(); return this.lease.client.<method>(...)\<close>. The client's method,
  already applied to its arguments, is a function of the client and of the state of the
  world \<open>'w\<close> it acts on (the remote server); a method call on an \<^verbatim>\<open>undefined\<close> client
  is a TypeError.
\<close>

definition delegate ::
  "('c \<Rightarrow> 'w \<Rightarrow> (error + 'r) \<times> 'w) \<Rightarrow> ('c, 'pl) session \<Rightarrow> 'w \<Rightarrow> (error + 'r) \<times> 'w" where
  "delegate method s w =
     (case assertOpen s of
        Inl e \<Rightarrow> (Inl e, w)
      | Inr _ \<Rightarrow>
          (case lease_client (lease s) of
             None \<Rightarrow> (Inl TypeError, w)
           | Some c \<Rightarrow> method c w))"

definition session_queue ::
  "('c \<Rightarrow> 'w \<Rightarrow> (error + 'r) \<times> 'w) \<Rightarrow> ('c, 'pl) session \<Rightarrow> 'w \<Rightarrow> (error + 'r) \<times> 'w" where
  "session_queue queue_method = delegate queue_method"

definition session_uploadFile ::
  "('c \<Rightarrow> 'w \<Rightarrow> (error + 'r) \<times> 'w) \<Rightarrow> ('c, 'pl) session \<Rightarrow> 'w \<Rightarrow> (error + 'r) \<times> 'w" where
  "session_uploadFile uploadFile_method = delegate uploadFile_method"

definition session_getHistory ::
  "('c \<Rightarrow> 'w \<Rightarrow> (error + 'r) \<times> 'w) \<Rightarrow> ('c, 'pl) session \<Rightarrow> 'w \<Rightarrow> (error + 'r) \<times> 'w" where
  "session_getHistory getHistory_method = delegate getHistory_method"

section \<open>JavaScript values\<close>

text \<open>
  Values of type \<^verbatim>\<open>unknown\<close> (parsed JSON bodies, payloads, processor outputs, artifacts):
  \<^verbatim>\<open>undefined\<close>, \<^verbatim>\<open>null\<close>, booleans, numbers, strings, Buffers (byte lists), arrays
  and plain objects. A plain object lists its own enumerable properties in enumeration
  order, each key once. The code modelled here never computes with a number held in
  such a value: it tests whether it is truthy and prints it. A number is therefore
  given by the text JavaScript prints for it (\<^verbatim>\<open>Number.prototype.toString\<close>, as in
  \<^verbatim>\<open>String(n)\<close>): \<open>0\<close>, \<open>-1.5\<close>, \<open>1e+21\<close>, \<open>NaN\<close>, \<open>Infinity\<close>; both zeros print as \<open>0\<close>.
\<close>

datatype jsval =
    JUndefined
  | JNull
  | JBool bool
  | JNum string
  | JStr string
  | JBuf "nat list"
  | JArr "jsval list"
  | JObj "(string \<times> jsval) list"

fun truthy :: "jsval \<Rightarrow> bool" where
  "truthy JUndefined = False"
| "truthy JNull = False"
| "truthy (JBool b) = b"
| "truthy (JNum n) = (n \<noteq> ''0'' \<and> n \<noteq> ''NaN'')"
| "truthy (JStr s) = (s \<noteq> [])"
| "truthy _ = True"

fun nullish :: "jsval \<Rightarrow> bool" where
  "nullish JUndefined = True"
| "nullish JNull = True"
| "nullish _ = False"

fun isPlainObject :: "jsval \<Rightarrow> bool" where
  "isPlainObject (JObj _) = True"
| "isPlainObject _ = False"

fun isString :: "jsval \<Rightarrow> bool" where
  "isString (JStr _) = True"
| "isString _ = False"

text \<open>
  \<open>lookup\<close> reads a property of a plain object (\<^verbatim>\<open>o[k]\<close>, \<^verbatim>\<open>undefined\<close> when absent),
  \<open>js_get\<close> reads a named property of any value that is neither \<^verbatim>\<open>null\<close> nor
  \<^verbatim>\<open>undefined\<close>: the fixed names the code reads are not properties of strings, numbers,
  booleans, arrays or Buffers, and a prompt id is taken not to be one either (an index
  or \<^verbatim>\<open>length\<close>), so these give \<^verbatim>\<open>undefined\<close>. \<open>has_key\<close> is \<^verbatim>\<open>k in o\<close>, and
  \<open>AList.update\<close> is the assignment \<^verbatim>\<open>o[k] = v\<close>: an existing key keeps its place, a new
  one goes last.
\<close>

definition lookup :: "(string \<times> jsval) list \<Rightarrow> string \<Rightarrow> jsval" where
  "lookup kvs k = (case map_of kvs k of None \<Rightarrow> JUndefined | Some v \<Rightarrow> v)"

fun js_get :: "jsval \<Rightarrow> string \<Rightarrow> jsval" where
  "js_get (JObj kvs) k = lookup kvs k"
| "js_get _ k = JUndefined"

definition has_key :: "(string \<times> jsval) list \<Rightarrow> string \<Rightarrow> bool" where
  "has_key kvs k = (map_of kvs k \<noteq> None)"

section \<open>Pipeline and processors (src/src/core/pipeline.ts, src/unnamed/part_000)\<close>

text \<open>
  A processor has a name, a guard \<^verbatim>\<open>shouldRun(artifact)\<close> and \<^verbatim>\<open>run(artifact)\<close>, which
  returns \<^verbatim>\<open>{ output, next? }\<close> (the fields \<open>output_value\<close> and \<open>next_artifact\<close>
  below; both source names are reserved words here) where \<^verbatim>\<open>next\<close> is
  \<^verbatim>\<open>Pick<Artifact, 'kind' | 'payload' | 'manifest'>\<close>. Both are asynchronous and may
  reject; they are functions of the artifact they are given.
\<close>

record next_shape =
  next_kind :: jsval
  next_payload :: jsval
  next_manifest :: jsval

record processor_output =
  output_value :: jsval
  next_artifact :: "next_shape option"

record processor =
  name :: string
  shouldRun :: "jsval \<Rightarrow> error + bool"
  run :: "jsval \<Rightarrow> error + processor_output"

text \<open>
  \<^verbatim>\<open>isArtifact(node) = isPlainObject(node) && 'kind' in node && 'payload' in node\<close>
\<close>

fun isArtifact :: "jsval \<Rightarrow> bool" where
  "isArtifact (JObj kvs) = (has_key kvs ''kind'' \<and> has_key kvs ''payload'')"
| "isArtifact _ = False"

text \<open>\<^verbatim>\<open>Object.assign(artifact, next)\<close> for a \<^verbatim>\<open>next\<close> of the declared shape.\<close>

definition assign_next :: "(string \<times> jsval) list \<Rightarrow> next_shape \<Rightarrow> (string \<times> jsval) list" where
  "assign_next artifact n =
     AList.update ''manifest'' (next_manifest n)
       (AList.update ''payload'' (next_payload n)
         (AList.update ''kind'' (next_kind n) artifact))"

text \<open>
  \<^verbatim>\<open>private async processArtifact(artifact: Artifact) {
    const state = artifact.pipeline ?? (artifact.pipeline = {})
    for (const processor of this.processors) {
      if (state[processor.name] || !(await processor.shouldRun(artifact)))
        continue
      const { output, next } = await processor.run(artifact)
      state[processor.name] = output
      if (next) {
        Object.assign(artifact, next)
      }
    }
  }\<close>
  The artifact is the property list of a plain object. \<^verbatim>\<open>state\<close> is the object stored
  under \<^verbatim>\<open>pipeline\<close>; since \<^verbatim>\<open>next\<close> carries no \<^verbatim>\<open>pipeline\<close> property, \<^verbatim>\<open>state\<close> stays the
  object the artifact holds, and the model reads and writes it there. The declared type
  of \<^verbatim>\<open>pipeline\<close> is a plain object or absent; for any other value the model answers
  \<open>TypeError\<close>. The loop state carries, besides the artifact, the names of the processors
  whose \<^verbatim>\<open>run\<close> has been called, in call order.
\<close>

definition bus :: "(string \<times> jsval) list \<Rightarrow> (string \<times> jsval) list" where
  "bus artifact = (case lookup artifact ''pipeline'' of JObj st \<Rightarrow> st | _ \<Rightarrow> [])"

fun process_loop ::
  "processor list \<Rightarrow> (string \<times> jsval) list \<times> string list \<Rightarrow>
   error + (string \<times> jsval) list \<times> string list" where
  "process_loop [] (artifact, calls) = Inr (artifact, calls)"
| "process_loop (p # ps) (artifact, calls) =
     (if truthy (lookup (bus artifact) (name p)) then process_loop ps (artifact, calls)
      else
        (case shouldRun p (JObj artifact) of
           Inl e \<Rightarrow> Inl e
         | Inr False \<Rightarrow> process_loop ps (artifact, calls)
         | Inr True \<Rightarrow>
             (case run p (JObj artifact) of
                Inl e \<Rightarrow> Inl e
              | Inr r \<Rightarrow>
                  (let stored = AList.update ''pipeline''
                                  (JObj (AList.update (name p) (output_value r) (bus artifact))) artifact;
                       artifact' = (case next_artifact r of None \<Rightarrow> stored
                                    | Some n \<Rightarrow> assign_next stored n)
                   in process_loop ps (artifact', calls @ [name p])))))"

definition processArtifact ::
  "processor list \<Rightarrow> (string \<times> jsval) list \<Rightarrow> error + (string \<times> jsval) list \<times> string list" where
  "processArtifact processors artifact =
     (let p = lookup artifact ''pipeline'' in
      if nullish p then process_loop processors (AList.update ''pipeline'' (JObj []) artifact, [])
      else if isPlainObject p then process_loop processors (artifact, [])
      else Inl TypeError)"

text \<open>
  \<^verbatim>\<open>async run(artifacts) {
    const walk = async (node: unknown) => {
      if (Array.isArray(node)) { for (const x of node) await walk(x) }
      else if (isPlainObject(node)) {
        if (isArtifact(node)) { await this.processArtifact(node) }
        else { for (const v of Object.values(node)) await walk(v) }
      }
    }
    await walk(artifacts)
    return artifacts
  }\<close>
  The walk mutates the artifacts in place and \<^verbatim>\<open>run\<close> returns the same structure; the
  model returns the structure after the walk, with the calls made.
\<close>

fun walk :: "processor list \<Rightarrow> jsval \<Rightarrow> error + jsval \<times> string list"
  and walk_list :: "processor list \<Rightarrow> jsval list \<Rightarrow> error + jsval list \<times> string list"
  and walk_values ::
    "processor list \<Rightarrow> (string \<times> jsval) list \<Rightarrow> error + (string \<times> jsval) list \<times> string list"
  where
  "walk ps (JArr xs) =
     (case walk_list ps xs of Inl e \<Rightarrow> Inl e | Inr (ys, calls) \<Rightarrow> Inr (JArr ys, calls))"
| "walk ps (JObj kvs) =
     (if isArtifact (JObj kvs)
      then (case processArtifact ps kvs of
              Inl e \<Rightarrow> Inl e
            | Inr (artifact, calls) \<Rightarrow> Inr (JObj artifact, calls))
      else (case walk_values ps kvs of
              Inl e \<Rightarrow> Inl e
            | Inr (kvs', calls) \<Rightarrow> Inr (JObj kvs', calls)))"
| "walk ps JUndefined = Inr (JUndefined, [])"
| "walk ps JNull = Inr (JNull, [])"
| "walk ps (JBool b) = Inr (JBool b, [])"
| "walk ps (JNum n) = Inr (JNum n, [])"
| "walk ps (JStr s) = Inr (JStr s, [])"
| "walk ps (JBuf b) = Inr (JBuf b, [])"
| "walk_list ps [] = Inr ([], [])"
| "walk_list ps (x # xs) =
     (case walk ps x of
        Inl e \<Rightarrow> Inl e
      | Inr (y, calls) \<Rightarrow>
          (case walk_list ps xs of
             Inl e \<Rightarrow> Inl e
           | Inr (ys, calls') \<Rightarrow> Inr (y # ys, calls @ calls')))"
| "walk_values ps [] = Inr ([], [])"
| "walk_values ps ((k, v) # kvs) =
     (case walk ps v of
        Inl e \<Rightarrow> Inl e
      | Inr (v', calls) \<Rightarrow>
          (case walk_values ps kvs of
             Inl e \<Rightarrow> Inl e
           | Inr (kvs', calls') \<Rightarrow> Inr ((k, v') # kvs', calls @ calls')))"

definition pipeline_run :: "processor list \<Rightarrow> jsval \<Rightarrow> error + jsval" where
  "pipeline_run processors artifacts =
     (case walk processors artifacts of Inl e \<Rightarrow> Inl e | Inr (a, calls) \<Rightarrow> Inr a)"

text \<open>
  \<^verbatim>\<open>async run(workflow, options) {
    this.assertOpen()
    const artifacts = await this.lease.queue.add(() => this.lease.client.run(workflow, options))
    if (!artifacts) throw new Error('Generation failed')
    if (this.pipeline) { return this.pipeline.run(artifacts) }
    else { return artifacts }
  }\<close>
  The queue runs the task it is given and passes its result on; its concurrency ceiling
  is not part of the model. A lease without a client has no queue either.
\<close>

definition session_run ::
  "('c \<Rightarrow> 'w \<Rightarrow> (error + jsval) \<times> 'w) \<Rightarrow> ('c, processor list) session \<Rightarrow> 'w \<Rightarrow>
   (error + jsval) \<times> 'w" where
  "session_run run_method s w =
     (case assertOpen s of
        Inl e \<Rightarrow> (Inl e, w)
      | Inr _ \<Rightarrow>
          (case lease_client (lease s) of
             None \<Rightarrow> (Inl TypeError, w)
           | Some c \<Rightarrow>
               (case run_method c w of
                  (Inl e, w') \<Rightarrow> (Inl e, w')
                | (Inr artifacts, w') \<Rightarrow>
                    if \<not> truthy artifacts then (Inl (Error ''Generation failed''), w')
                    else (case pipeline s of
                            None \<Rightarrow> (Inr artifacts, w')
                          | Some processors \<Rightarrow> (pipeline_run processors artifacts, w')))))"

section \<open>Client: extraction of artifacts (class ComfyUIClient, in src/eslint.config.mjs)\<close>

text \<open>The decimal numeral a template literal \<^verbatim>\<open>${i}\<close> gives for an array index.\<close>

definition digit_char :: "nat \<Rightarrow> char" where
  "digit_char d = ''0123456789'' ! d"

fun show_nat :: "nat \<Rightarrow> string" where
  "show_nat n = (if n < 10 then [digit_char n] else show_nat (n div 10) @ [digit_char (n mod 10)])"

declare show_nat.simps [simp del]

text \<open>
  \<^verbatim>\<open>isBinaryManifest(v) = isPlainObject(v) && typeof v.filename === 'string'
     && typeof v.type === 'string'\<close>
\<close>

fun isBinaryManifest :: "jsval \<Rightarrow> bool" where
  "isBinaryManifest (JObj kvs) = (isString (lookup kvs ''filename'') \<and> isString (lookup kvs ''type''))"
| "isBinaryManifest _ = False"

text \<open>
  \<^verbatim>\<open>private* walkLeaves(node: unknown, path: string) {
    if (isBinaryManifest(node)) { yield { value: node, from: path } }
    else if (Array.isArray(node)) {
      for (let i = 0; i < node.length; i++) { yield* this.walkLeaves(node[i], `${path}[${i}]`) }
    }
    else if (isString(node)) { yield { value: node, from: path } }
    else if (isPlainObject(node)) {
      for (const [key, val] of Object.entries(node)) { yield* this.walkLeaves(val, `${path}.${key}`) }
    }
  }\<close>
  The generator is the list of the leaves it yields, each a pair of value and path.
  \<open>walk_array\<close> is the loop over an array from index \<open>i\<close> on, \<open>walk_entries\<close> the loop
  over the entries of an object.
\<close>

fun walkLeaves :: "jsval \<Rightarrow> string \<Rightarrow> (jsval \<times> string) list"
  and walk_array :: "jsval list \<Rightarrow> nat \<Rightarrow> string \<Rightarrow> (jsval \<times> string) list"
  and walk_entries :: "(string \<times> jsval) list \<Rightarrow> string \<Rightarrow> (jsval \<times> string) list"
  where
  "walkLeaves (JObj kvs) path =
     (if isBinaryManifest (JObj kvs) then [(JObj kvs, path)] else walk_entries kvs path)"
| "walkLeaves (JArr xs) path = walk_array xs 0 path"
| "walkLeaves (JStr s) path = [(JStr s, path)]"
| "walkLeaves JUndefined path = []"
| "walkLeaves JNull path = []"
| "walkLeaves (JBool b) path = []"
| "walkLeaves (JNum n) path = []"
| "walkLeaves (JBuf b) path = []"
| "walk_array [] i path = []"
| "walk_array (x # xs) i path =
     walkLeaves x (path @ ''['' @ show_nat i @ '']'') @ walk_array xs (Suc i) path"
| "walk_entries [] path = []"
| "walk_entries ((key, val) # kvs) path =
     walkLeaves val (path @ ''.'' @ key) @ walk_entries kvs path"

text \<open>
  \<^verbatim>\<open>String(value)\<close>. \<open>walkLeaves\<close> hands \<open>leafToArtifact\<close> binary manifests and strings
  only; the other cases follow JavaScript's conversion (a Buffer decodes its bytes).
\<close>

fun js_String :: "jsval \<Rightarrow> string"
  and js_join :: "jsval list \<Rightarrow> string"
  where
  "js_String JUndefined = ''undefined''"
| "js_String JNull = ''null''"
| "js_String (JBool b) = (if b then ''true'' else ''false'')"
| "js_String (JNum n) = n"
| "js_String (JStr s) = s"
| "js_String (JBuf b) = map char_of b"
| "js_String (JArr xs) = js_join xs"
| "js_String (JObj kvs) = ''[object Object]''"
| "js_join [] = []"
| "js_join (x # xs) =
     (if nullish x then [] else js_String x) @ (if xs = [] then [] else '','' @ js_join xs)"

text \<open>
  \<^verbatim>\<open>private async leafToArtifact(leaf, promptId) {
    const { value, from } = leaf
    if (isBinaryManifest(value)) {
      const buffer = await this.loadResourceBuffer(value)
      return { kind: 'binary', payload: buffer, manifest: { ...value, from, promptId } }
    }
    return { kind: 'text', payload: String(value), manifest: { from, promptId } }
  }\<close>
  \<open>download\<close> is \<^verbatim>\<open>loadResourceBuffer\<close>: the bytes the server returns for a manifest, or
  the transport's failure.
\<close>

fun props :: "jsval \<Rightarrow> (string \<times> jsval) list" where
  "props (JObj kvs) = kvs"
| "props _ = []"

definition leafToArtifact ::
  "(jsval \<Rightarrow> error + nat list) \<Rightarrow> string \<Rightarrow> jsval \<times> string \<Rightarrow> error + jsval" where
  "leafToArtifact download promptId leaf =
     (case leaf of (val, from) \<Rightarrow>
        if isBinaryManifest val
        then (case download val of
                Inl e \<Rightarrow> Inl e
              | Inr buffer \<Rightarrow>
                  Inr (JObj [(''kind'', JStr ''binary''), (''payload'', JBuf buffer),
                             (''manifest'',
                              JObj (AList.update ''promptId'' (JStr promptId)
                                     (AList.update ''from'' (JStr from) (props val))))]))
        else Inr (JObj [(''kind'', JStr ''text''), (''payload'', JStr (js_String val)),
                        (''manifest'',
                         JObj [(''from'', JStr from), (''promptId'', JStr promptId)])]))"

text \<open>
  \<^verbatim>\<open>Promise.all\<close> over a list of operations: all results, or the failure (the first in
  list order here).
\<close>

fun all_results :: "(error + 'a) list \<Rightarrow> error + 'a list" where
  "all_results [] = Inr []"
| "all_results (Inl e # rs) = Inl e"
| "all_results (Inr x # rs) = (case all_results rs of Inl e \<Rightarrow> Inl e | Inr xs \<Rightarrow> Inr (x # xs))"

text \<open>
  \<^verbatim>\<open>Object.entries\<close>: the entries of a plain object; an array or a string has its
  indices as keys; other values have none.
\<close>

fun object_entries :: "jsval \<Rightarrow> (string \<times> jsval) list" where
  "object_entries (JObj kvs) = kvs"
| "object_entries (JArr xs) = zip (map show_nat [0..<length xs]) xs"
| "object_entries (JStr s) = zip (map show_nat [0..<length s]) (map (\<lambda>c. JStr [c]) s)"
| "object_entries (JBuf b) = zip (map show_nat [0..<length b]) (map (\<lambda>n. JNum (show_nat n)) b)"
| "object_entries _ = []"

text \<open>
  \<^verbatim>\<open>private async extractArtifacts(outputs, promptId) {
    const entries = Object.entries(outputs)
    const pairs = await Promise.all(entries.map(async ([nodeId, nodeOut]) => {
      if (!isPlainObject(nodeOut)) { return [nodeId, []] }
      const leaves = [...this.walkLeaves(nodeOut, nodeId)]
      const artifacts = await Promise.all(leaves.map(leaf => this.leafToArtifact(leaf, promptId)))
      return [nodeId, artifacts]
    }))
    return Object.fromEntries(pairs)
  }\<close>
  and \<^verbatim>\<open>unwrapArtifacts(outputs) = Object.values(outputs).flatMap(artifacts => artifacts)\<close>.
  The record of artifact lists is kept as its list of entries.
\<close>

definition extract_node ::
  "(jsval \<Rightarrow> error + nat list) \<Rightarrow> string \<Rightarrow> string \<times> jsval \<Rightarrow> error + string \<times> jsval list" where
  "extract_node download promptId entry =
     (case entry of (nodeId, nodeOut) \<Rightarrow>
        if \<not> isPlainObject nodeOut then Inr (nodeId, [])
        else (case all_results (map (leafToArtifact download promptId) (walkLeaves nodeOut nodeId)) of
                Inl e \<Rightarrow> Inl e
              | Inr artifacts \<Rightarrow> Inr (nodeId, artifacts)))"

definition extractArtifacts ::
  "(jsval \<Rightarrow> error + nat list) \<Rightarrow> jsval \<Rightarrow> string \<Rightarrow> error + (string \<times> jsval list) list" where
  "extractArtifacts download outputs promptId =
     all_results (map (extract_node download promptId) (object_entries outputs))"

definition unwrapArtifacts :: "(string \<times> jsval list) list \<Rightarrow> jsval list" where
  "unwrapArtifacts outputs = concat (map snd outputs)"

text \<open>\<^verbatim>\<open>art.manifest?.from\<close>\<close>

definition manifest_from :: "jsval \<Rightarrow> jsval" where
  "manifest_from art =
     (let m = js_get art ''manifest'' in if nullish m then JUndefined else js_get m ''from'')"

section \<open>Client: history, polling and output mapping (src/eslint.config.mjs, src/src/core/session.ts)\<close>

text \<open>
  \<^verbatim>\<open>JSON.stringify\<close> for the values above: strings are quoted, with the quote, the
  backslash and the control characters escaped; a finite number prints as
  \<^verbatim>\<open>String\<close> prints it, any other number as \<^verbatim>\<open>null\<close>; \<^verbatim>\<open>undefined\<close> is \<^verbatim>\<open>null\<close> inside an
  array and drops the property inside an object; a Buffer prints as its \<^verbatim>\<open>toJSON\<close>
  object.
\<close>

definition hex_char :: "nat \<Rightarrow> char" where
  "hex_char d = ''0123456789abcdef'' ! d"

definition escape_char :: "char \<Rightarrow> string" where
  "escape_char c =
     (if c = CHR 0x22 then [CHR 0x5C, CHR 0x22]
      else if c = CHR 0x5C then [CHR 0x5C, CHR 0x5C]
      else if c = CHR 0x08 then [CHR 0x5C, CHR ''b'']
      else if c = CHR 0x0C then [CHR 0x5C, CHR ''f'']
      else if c = CHR 0x0A then [CHR 0x5C, CHR ''n'']
      else if c = CHR 0x0D then [CHR 0x5C, CHR ''r'']
      else if c = CHR 0x09 then [CHR 0x5C, CHR ''t'']
      else if (of_char c :: nat) < 32
        then [CHR 0x5C, CHR ''u'', CHR ''0'', CHR ''0'',
              hex_char (of_char c div 16), hex_char (of_char c mod 16)]
      else [c])"

definition json_quote :: "string \<Rightarrow> string" where
  "json_quote s = [CHR 0x22] @ concat (map escape_char s) @ [CHR 0x22]"

fun join_commas :: "string list \<Rightarrow> string" where
  "join_commas [] = []"
| "join_commas [s] = s"
| "join_commas (s # t # ss) = s @ '','' @ join_commas (t # ss)"

fun json_stringify :: "jsval \<Rightarrow> string"
  and json_elements :: "jsval list \<Rightarrow> string list"
  and json_members :: "(string \<times> jsval) list \<Rightarrow> string list"
  where
  "json_stringify JUndefined = ''undefined''"
| "json_stringify JNull = ''null''"
| "json_stringify (JBool b) = (if b then ''true'' else ''false'')"
| "json_stringify (JNum n) =
     (if n = ''NaN'' \<or> n = ''Infinity'' \<or> n = ''-Infinity'' then ''null'' else n)"
| "json_stringify (JStr s) = json_quote s"
| "json_stringify (JBuf b) =
     ''{'' @ json_quote ''type'' @ '':'' @ json_quote ''Buffer'' @ '','' @ json_quote ''data''
       @ '':['' @ join_commas (map show_nat b) @ '']}''"
| "json_stringify (JArr xs) = ''['' @ join_commas (json_elements xs) @ '']''"
| "json_stringify (JObj kvs) = ''{'' @ join_commas (json_members kvs) @ ''}''"
| "json_elements [] = []"
| "json_elements (x # xs) =
     (if x = JUndefined then ''null'' else json_stringify x) # json_elements xs"
| "json_members [] = []"
| "json_members ((k, v) # kvs) =
     (if v = JUndefined then json_members kvs
      else (json_quote k @ '':'' @ json_stringify v) # json_members kvs)"

text \<open>
  \<^verbatim>\<open>async getHistory(promptId) {
    const histories = await request<Histories>(`${this.baseUrl}/history/${promptId}`, ...)
    const rec = histories[promptId]
    if (rec && rec.status?.status_str === 'error') {
      throw new Error(`Prompt ${promptId} failed: ${JSON.stringify(rec.status.messages || '{}')}`)
    }
    return histories
  }\<close>
  \<open>response\<close> is what the transport call gives: the parsed JSON body, or its failure.
  Reading a property of \<^verbatim>\<open>null\<close> or \<^verbatim>\<open>undefined\<close> is a TypeError.
\<close>

definition status_str :: "jsval \<Rightarrow> jsval" where
  "status_str rec =
     (let status = js_get rec ''status'' in
      if nullish status then JUndefined else js_get status ''status_str'')"

definition error_text :: "string \<Rightarrow> jsval \<Rightarrow> string" where
  "error_text promptId rec =
     ''Prompt '' @ promptId @ '' failed: '' @
       json_stringify (let messages = js_get (js_get rec ''status'') ''messages'' in
                       if truthy messages then messages else JStr ''{}'')"

definition getHistory :: "string \<Rightarrow> error + jsval \<Rightarrow> error + jsval" where
  "getHistory promptId response =
     (case response of
        Inl e \<Rightarrow> Inl e
      | Inr histories \<Rightarrow>
          if nullish histories then Inl TypeError
          else (let rec = js_get histories promptId in
                if truthy rec \<and> status_str rec = JStr ''error''
                then Inl (Error (error_text promptId rec))
                else Inr histories))"

text \<open>
  The poll configuration of the constructor; an option that is absent (\<open>None\<close>) takes
  its default, any number given is kept:
  \<^verbatim>\<open>this.pollCfg = {
    interval: options.poll?.interval ?? ComfyUIClient.POLL_DEFAULT_MS,   // 4_000
    backoffBase: options.poll?.backoffBase ?? 2_000,
    backoffCap: options.poll?.backoffCap ?? 15_000,
  }\<close>
\<close>

record pollCfg =
  interval :: jsnum
  backoffBase :: jsnum
  backoffCap :: jsnum

definition new_pollCfg :: "jsnum option \<Rightarrow> jsnum option \<Rightarrow> jsnum option \<Rightarrow> pollCfg" where
  "new_pollCfg poll_interval poll_backoffBase poll_backoffCap =
     \<lparr> interval = (case poll_interval of None \<Rightarrow> Fin 4000 | Some i \<Rightarrow> i),
       backoffBase = (case poll_backoffBase of None \<Rightarrow> Fin 2000 | Some b \<Rightarrow> b),
       backoffCap = (case poll_backoffCap of None \<Rightarrow> Fin 15000 | Some c \<Rightarrow> c) \<rparr>"

text \<open>
  The test that ends the loop:
  \<^verbatim>\<open>rec?.status.completed && rec.outputs && Object.keys(rec.outputs).length\<close>.
\<close>

definition poll_ready :: "jsval \<Rightarrow> error + bool" where
  "poll_ready rec =
     (if nullish rec then Inr False
      else (let status = js_get rec ''status'' in
            if nullish status then Inl TypeError
            else Inr (truthy (js_get status ''completed'') \<and> truthy (js_get rec ''outputs'')
                      \<and> object_entries (js_get rec ''outputs'') \<noteq> [])))"

text \<open>
  \<^verbatim>\<open>private async pollUntilDone(promptId) {
    let attempt = 0
    while (true) {
      const waitMs = exponentialBackoff(attempt, this.pollCfg!.interval, this.pollCfg!.backoffCap)
      await sleep(waitMs)
      attempt++
      const histories = await this.getHistory(promptId)
      const rec = histories[promptId]
      if (rec?.status.completed && rec.outputs && Object.keys(rec.outputs).length) {
        return this.extractArtifacts(rec.outputs, promptId)
      }
    }
  }\<close>
  The loop has no bound. The model runs it against the list of the transport's answers
  to the successive history requests: each iteration sleeps, then consumes one answer.
  The result is \<open>None\<close> when the answers run out before the loop has returned or thrown;
  the second component lists the delays slept before the fetches that were made.
\<close>

fun pollUntilDone ::
  "pollCfg \<Rightarrow> (jsval \<Rightarrow> error + nat list) \<Rightarrow> string \<Rightarrow> nat \<Rightarrow> (error + jsval) list \<Rightarrow>
   (error + (string \<times> jsval list) list) option \<times> jsnum list" where
  "pollUntilDone cfg download promptId attempt [] = (None, [])"
| "pollUntilDone cfg download promptId attempt (response # rest) =
     (let waitMs = exponentialBackoff attempt (interval cfg) (backoffCap cfg) in
      case getHistory promptId response of
        Inl e \<Rightarrow> (Some (Inl e), [waitMs])
      | Inr histories \<Rightarrow>
          (case poll_ready (js_get histories promptId) of
             Inl e \<Rightarrow> (Some (Inl e), [waitMs])
           | Inr True \<Rightarrow>
               (Some (extractArtifacts download
                        (js_get (js_get histories promptId) ''outputs'') promptId), [waitMs])
           | Inr False \<Rightarrow>
               (case pollUntilDone cfg download promptId (Suc attempt) rest of
                  (result, waits) \<Rightarrow> (result, waitMs # waits))))"

text \<open>
  Output mapping. A mapping entry is \<^verbatim>\<open>{ from, to, defaultValue? }\<close> (the fields
  \<open>out_from\<close>, \<open>out_to\<close> and \<open>defaultValue\<close>; an absent default is \<^verbatim>\<open>undefined\<close>).
  \<^verbatim>\<open>export function applyNodeOutputs(artifacts, outputs) {
    const byFrom = new Map<string, Artifact>()
    for (const art of artifacts) {
      const from = art.manifest?.from
      if (isString(from)) byFrom.set(from, art)
    }
    const response = {}
    outputs?.forEach(({ from, to, defaultValue }) => {
      const art = byFrom.get(from)
      const value = art ? art.payload : defaultValue
      if (!isUndefined(value)) set(response, to.split('.'), { ...art, payload: value })
    })
    return response
  }\<close>
\<close>

record node_output =
  out_from :: string
  out_to :: string
  defaultValue :: jsval

definition byFrom :: "jsval list \<Rightarrow> string \<Rightarrow> jsval option" where
  "byFrom artifacts =
     fold (\<lambda>art m. case manifest_from art of JStr f \<Rightarrow> m(f \<mapsto> art) | _ \<Rightarrow> m)
          artifacts Map.empty"

text \<open>\<^verbatim>\<open>to.split('.')\<close>\<close>

fun split_dots :: "string \<Rightarrow> string list" where
  "split_dots [] = [[]]"
| "split_dots (c # cs) =
     (if c = CHR ''.'' then [] # split_dots cs
      else (case split_dots cs of w # ws \<Rightarrow> (c # w) # ws | [] \<Rightarrow> [[c]]))"

text \<open>
  lodash \<^verbatim>\<open>set(object, path, value)\<close> for a path given as an array of keys: it walks the
  keys, keeps an intermediate value that is an object and puts a fresh one elsewhere,
  assigns the value at the last key, and stops at a key \<^verbatim>\<open>__proto__\<close>, \<^verbatim>\<open>constructor\<close> or
  \<^verbatim>\<open>prototype\<close>. The model follows it through plain objects. Where lodash would create
  an array (a missing intermediate before an index key) the model has an object with
  that key, which reads the same by property access; an intermediate that is an array
  or a Buffer is replaced like a primitive one.
\<close>

definition unsafe_key :: "string \<Rightarrow> bool" where
  "unsafe_key k = (k = ''__proto__'' \<or> k = ''constructor'' \<or> k = ''prototype'')"

fun set_path :: "(string \<times> jsval) list \<Rightarrow> string list \<Rightarrow> jsval \<Rightarrow> (string \<times> jsval) list" where
  "set_path obj [] v = obj"
| "set_path obj [k] v = (if unsafe_key k then obj else AList.update k v obj)"
| "set_path obj (k # k' # ks) v =
     (if unsafe_key k then obj
      else AList.update k
             (JObj (set_path (case lookup obj k of JObj child \<Rightarrow> child | _ \<Rightarrow> []) (k' # ks) v))
             obj)"

text \<open>
  The object an entry writes, \<^verbatim>\<open>{ ...art, payload: value }\<close>, or nothing when the value
  is \<^verbatim>\<open>undefined\<close>.
\<close>

definition resolve :: "jsval list \<Rightarrow> node_output \<Rightarrow> jsval option" where
  "resolve artifacts entry =
     (let art = byFrom artifacts (out_from entry);
          val = (case art of Some a \<Rightarrow> js_get a ''payload'' | None \<Rightarrow> defaultValue entry)
      in if val = JUndefined then None
         else Some (JObj (AList.update ''payload'' val
                            (case art of Some a \<Rightarrow> props a | None \<Rightarrow> []))))"

definition applyNodeOutputs :: "jsval list \<Rightarrow> node_output list \<Rightarrow> (string \<times> jsval) list" where
  "applyNodeOutputs artifacts outputs =
     fold (\<lambda>entry response.
             case resolve artifacts entry of
               None \<Rightarrow> response
             | Some obj \<Rightarrow> set_path response (split_dots (out_to entry)) obj)
          outputs []"

text \<open>
  \<^verbatim>\<open>async run(workflow, options) {
    const preparedPayload = ...
    const { prompt_id } = await request<QueueOutput>(`${this.baseUrl}/prompt`, ...)
    const rawOutputs = await this.pollUntilDone(prompt_id)
    const artifacts = unwrapArtifacts(rawOutputs) as Artifact[]
    return (options?.node?.outputs?.length
      ? applyNodeOutputs(artifacts, options.node.outputs)
      : artifacts) as any
  }\<close>
  \<open>submitted\<close> is the outcome of the POST (the prompt id, or the transport's failure);
  the prepared workflow only travels in the request body. \<open>outputs\<close> is
  \<^verbatim>\<open>options?.node?.outputs\<close>. The result is \<open>None\<close> when \<open>pollUntilDone\<close> has not returned.
\<close>

definition client_run ::
  "pollCfg \<Rightarrow> (jsval \<Rightarrow> error + nat list) \<Rightarrow> error + string \<Rightarrow> (error + jsval) list \<Rightarrow>
   node_output list option \<Rightarrow> (error + jsval) option" where
  "client_run cfg download submitted responses outputs =
     (case submitted of
        Inl e \<Rightarrow> Some (Inl e)
      | Inr prompt_id \<Rightarrow>
          (case fst (pollUntilDone cfg download prompt_id 0 responses) of
             None \<Rightarrow> None
           | Some (Inl e) \<Rightarrow> Some (Inl e)
           | Some (Inr rawOutputs) \<Rightarrow>
               (let artifacts = unwrapArtifacts rawOutputs in
                case outputs of
                  Some (entry # entries) \<Rightarrow>
                    Some (Inr (JObj (applyNodeOutputs artifacts (entry # entries))))
                | _ \<Rightarrow> Some (Inr (JArr artifacts)))))"

section \<open>Vocabulary of the pool and session properties\<close>

text \<open>
  The load ratio of an instance: \<open>load\<close> is the exact fraction, \<open>ratio\<close> the double
  the selection loop computes for it.
\<close>

definition load :: "'c pool \<Rightarrow> nat \<Rightarrow> rat" where
  "load p i = of_int (sessionCounts p ! i) / of_int (maxConcurrencies p ! i)"

definition ratio :: "'c pool \<Rightarrow> nat \<Rightarrow> rat" where
  "ratio p i = round_double (load p i)"

text \<open>
  The shape every pool has: the arrays are as long as the client list (the constructor
  maps all of them over the same node list), and every count is an integer from 0 to
  \<^verbatim>\<open>2^53\<close>: a count starts at 0 and moves in steps of one, and in doubles
  \<^verbatim>\<open>2^53 + 1\<close> is \<^verbatim>\<open>2^53\<close> again.
\<close>

definition pool_wf :: "'c pool \<Rightarrow> bool" where
  "pool_wf p = (length (sessionCounts p) = length (clients p)
     \<and> length (maxConcurrencies p) = length (clients p)
     \<and> list_all (\<lambda>c. 0 \<le> c \<and> c \<le> 2 ^ 53) (sessionCounts p))"


text \<open>
  \<open>chosen p k b\<close>: among the first \<open>k\<close> instances, \<open>b\<close> is under its cap, no instance
  under its cap has a lower computed ratio, and every earlier one under its cap has a
  strictly higher one.
\<close>

definition chosen :: "'c pool \<Rightarrow> nat \<Rightarrow> nat \<Rightarrow> bool" where
  "chosen p k b = (b < k \<and> available p b
     \<and> (\<forall>j<k. available p j \<longrightarrow> ratio p b \<le> ratio p j)
     \<and> (\<forall>j<b. available p j \<longrightarrow> ratio p b < ratio p j))"

text \<open>The loop invariant of the selection loop before it visits index \<open>k\<close>.\<close>

definition scan_inv :: "'c pool \<Rightarrow> nat \<Rightarrow> int \<times> jsnum \<Rightarrow> bool" where
  "scan_inv p k st =
     ((fst st = - 1 \<and> snd st = Fin 1 \<and> (\<forall>j<k. \<not> available p j))
      \<or> (\<exists>b. fst st = int b \<and> snd st = Fin (ratio p b) \<and> chosen p k b))"


text \<open>
  Example pools: A(max 2, current 0) with B(max 2, current 1); a single full instance;
  and two instances with one session each and the caps \<^verbatim>\<open>2^53 - 2\<close> and \<^verbatim>\<open>2^53 - 1\<close>,
  the state of the pool built with these caps after two calls of \<open>acquire\<close>.
\<close>

definition poolAB :: "string pool" where
  "poolAB = \<lparr> clients = [''A'', ''B''], sessionCounts = [0, 1],
              maxConcurrencies = [2, 2], nanSlots = {} \<rparr>"

definition poolFull :: "string pool" where
  "poolFull = \<lparr> clients = [''A''], sessionCounts = [1], maxConcurrencies = [1], nanSlots = {} \<rparr>"


section \<open>Example processors and artifacts\<close>

text \<open>
  An uploader that runs on binary artifacts only (as \<^verbatim>\<open>CosUploader.shouldRun\<close> does), a
  converter that rewrites the artifact into a binary one through \<^verbatim>\<open>next\<close>, and a
  processor whose output is the number 0 and which appends a mark to a text payload.
\<close>

definition uploader :: processor where
  "uploader = \<lparr> name = ''uploader'',
                 shouldRun = (\<lambda>a. Inr (js_get a ''kind'' = JStr ''binary'')),
                 run = (\<lambda>a. Inr \<lparr> output_value = JObj [(''url'', JStr ''u'')],
                                   next_artifact = None \<rparr>) \<rparr>"

definition converter :: processor where
  "converter = \<lparr> name = ''converter'',
                  shouldRun = (\<lambda>a. Inr True),
                  run = (\<lambda>a. Inr \<lparr> output_value = JBool True,
                                    next_artifact = Some \<lparr> next_kind = JStr ''binary'',
                                      next_payload = JBuf [104, 105],
                                      next_manifest = js_get a ''manifest'' \<rparr> \<rparr>) \<rparr>"

definition counter :: processor where
  "counter = \<lparr> name = ''counter'',
                shouldRun = (\<lambda>a. Inr True),
                run = (\<lambda>a. Inr \<lparr> output_value = JNum ''0'',
                                  next_artifact = Some \<lparr> next_kind = JStr ''text'',
                                    next_payload = (case js_get a ''payload'' of
                                                      JStr s \<Rightarrow> JStr (s @ ''!'') | v \<Rightarrow> v),
                                    next_manifest = js_get a ''manifest'' \<rparr> \<rparr>) \<rparr>"

definition text_artifact :: "(string \<times> jsval) list" where
  "text_artifact =
     [(''kind'', JStr ''text''), (''payload'', JStr ''hi''),
      (''manifest'', JObj [(''from'', JStr ''9.text[0]''), (''promptId'', JStr ''p'')])]"

text \<open>The text artifact after one run of the pipeline of uploader and converter.\<close>

definition converted_artifact :: "(string \<times> jsval) list" where
  "converted_artifact =
     [(''kind'', JStr ''binary''), (''payload'', JBuf [104, 105]),
      (''manifest'', JObj [(''from'', JStr ''9.text[0]''), (''promptId'', JStr ''p'')]),
      (''pipeline'', JObj [(''converter'', JBool True)])]"

text \<open>The text artifact after one run of the pipeline of the counter alone.\<close>

definition counted_artifact :: "(string \<times> jsval) list" where
  "counted_artifact =
     [(''kind'', JStr ''text''), (''payload'', JStr ''hi!''),
      (''manifest'', JObj [(''from'', JStr ''9.text[0]''), (''promptId'', JStr ''p'')]),
      (''pipeline'', JObj [(''counter'', JNum ''0'')])]"

text \<open>
  \<^verbatim>\<open>CosUploader\<close> (src/unnamed/part_000), the processor the repository ships:
  \<^verbatim>\<open>async shouldRun(a: Artifact) { return a.kind === 'binary' }\<close>, and \<^verbatim>\<open>run\<close> uploads the
  payload and ends with \<^verbatim>\<open>return { url }\<close>, an object with neither an \<^verbatim>\<open>output\<close> nor a
  \<^verbatim>\<open>next\<close> property: \<^verbatim>\<open>processArtifact\<close> destructures \<^verbatim>\<open>undefined\<close> for both. The upload
  itself is outside the model (a failed upload would be a rejection).
\<close>

definition cosUploader :: processor where
  "cosUploader = \<lparr> name = ''cosUploader'',
                    shouldRun = (\<lambda>a. Inr (js_get a ''kind'' = JStr ''binary'')),
                    run = (\<lambda>a. Inr \<lparr> output_value = JUndefined, next_artifact = None \<rparr>) \<rparr>"

text \<open>A binary artifact, before and after one run of the pipeline of \<open>cosUploader\<close> alone.\<close>

definition binary_artifact :: "(string \<times> jsval) list" where
  "binary_artifact =
     [(''kind'', JStr ''binary''), (''payload'', JBuf [104, 105]),
      (''manifest'', JObj [(''filename'', JStr ''a.png''), (''from'', JStr ''9.images[0]''),
                           (''promptId'', JStr ''p'')])]"

definition uploaded_artifact :: "(string \<times> jsval) list" where
  "uploaded_artifact =
     [(''kind'', JStr ''binary''), (''payload'', JBuf [104, 105]),
      (''manifest'', JObj [(''filename'', JStr ''a.png''), (''from'', JStr ''9.images[0]''),
                           (''promptId'', JStr ''p'')]),
      (''pipeline'', JObj [(''cosUploader'', JUndefined)])]"

text \<open>
  The text artifact after one run of the pipeline of the uploader alone, which
  \<open>shouldRun\<close> declines: it has an empty bus.
\<close>

definition declined_artifact :: "(string \<times> jsval) list" where
  "declined_artifact =
     [(''kind'', JStr ''text''), (''payload'', JStr ''hi''),
      (''manifest'', JObj [(''from'', JStr ''9.text[0]''), (''promptId'', JStr ''p'')]),
      (''pipeline'', JObj [])]"

text \<open>
  A processor is settled on an artifact when its name holds a truthy bus entry there or
  its \<open>shouldRun\<close> declines the artifact; \<open>processed ps a\<close>: \<open>a\<close> is an artifact with a bus
  on which every processor of the pipeline is settled.
\<close>

definition settled :: "processor \<Rightarrow> (string \<times> jsval) list \<Rightarrow> bool" where
  "settled p artifact =
     (truthy (lookup (bus artifact) (name p)) \<or> shouldRun p (JObj artifact) = Inr False)"

definition processed :: "processor list \<Rightarrow> jsval \<Rightarrow> bool" where
  "processed ps a = (case a of
      JObj artifact \<Rightarrow> isArtifact a \<and> isPlainObject (lookup artifact ''pipeline'')
        \<and> list_all (\<lambda>p. settled p artifact) ps
    | _ \<Rightarrow> False)"

section \<open>Vocabulary of the extraction properties\<close>

text \<open>
  A path is the node id followed by segments \<open>[i]\<close> and \<open>.key\<close>. A separator is a
  character that starts a segment; a key is plain when it contains no separator; the
  rest of a path after a prefix is well formed when it is empty or starts a segment.
\<close>

definition sep :: "char \<Rightarrow> bool" where
  "sep c = (c = CHR ''.'' \<or> c = CHR ''['')"

definition key_ok :: "string \<Rightarrow> bool" where
  "key_ok k = list_all (\<lambda>c. \<not> sep c) k"

definition tail_ok :: "string \<Rightarrow> bool" where
  "tail_ok r = (case r of [] \<Rightarrow> True | c # cs \<Rightarrow> sep c)"

text \<open>
  \<open>paths_ok node\<close>: in the part of the tree the walk enters (it does not enter a binary
  manifest), every object has each key once, as JavaScript objects do, and all keys are
  plain.
\<close>

fun paths_ok :: "jsval \<Rightarrow> bool"
  and paths_ok_list :: "jsval list \<Rightarrow> bool"
  and paths_ok_entries :: "(string \<times> jsval) list \<Rightarrow> bool"
  where
  "paths_ok (JObj kvs) =
     (isBinaryManifest (JObj kvs) \<or> (distinct (map fst kvs) \<and> paths_ok_entries kvs))"
| "paths_ok (JArr xs) = paths_ok_list xs"
| "paths_ok JUndefined = True"
| "paths_ok JNull = True"
| "paths_ok (JBool b) = True"
| "paths_ok (JNum n) = True"
| "paths_ok (JStr s) = True"
| "paths_ok (JBuf b) = True"
| "paths_ok_list [] = True"
| "paths_ok_list (x # xs) = (paths_ok x \<and> paths_ok_list xs)"
| "paths_ok_entries [] = True"
| "paths_ok_entries ((k, v) # kvs) = (key_ok k \<and> paths_ok v \<and> paths_ok_entries kvs)"

text \<open>
  An outputs record whose node ids are plain keys, each once, and whose node outputs
  satisfy \<open>paths_ok\<close>; and the paths \<open>extractArtifacts\<close> walks for one of its entries.
\<close>

definition outputs_ok :: "jsval \<Rightarrow> bool" where
  "outputs_ok outputs = (case outputs of
      JObj kvs \<Rightarrow> distinct (map fst kvs)
        \<and> list_all (\<lambda>entry. key_ok (fst entry) \<and> paths_ok (snd entry)) kvs
    | _ \<Rightarrow> False)"

definition node_paths :: "string \<times> jsval \<Rightarrow> string list" where
  "node_paths entry =
     (if isPlainObject (snd entry) then map snd (walkLeaves (snd entry) (fst entry)) else [])"

text \<open>
  Example outputs: two images and a text under node 8 and a text under node 9; and an
  outputs record with the keys \<open>a.b\<close> and \<open>c[0]\<close> beside \<open>a\<close> and \<open>c\<close>, with the
  artifacts extracted from it. \<open>fixed_download\<close> answers every download with two bytes.
\<close>

definition outputs_example :: jsval where
  "outputs_example =
     JObj [(''8'', JObj [(''images'',
                          JArr [JObj [(''filename'', JStr ''a.png''), (''subfolder'', JStr ''''),
                                      (''type'', JStr ''output'')],
                                JObj [(''filename'', JStr ''b.png''), (''subfolder'', JStr ''''),
                                      (''type'', JStr ''output'')]]),
                         (''text'', JArr [JStr ''done''])]),
           (''9'', JObj [(''text'', JArr [JStr ''x''])])]"

definition outputs_dotted :: jsval where
  "outputs_dotted =
     JObj [(''9'', JObj [(''a.b'', JStr ''x''), (''a'', JObj [(''b'', JStr ''y'')]),
                         (''c[0]'', JStr ''z''), (''c'', JArr [JStr ''w''])])]"

definition fixed_download :: "jsval \<Rightarrow> error + nat list" where
  "fixed_download manifest = Inr [1, 2]"

definition dotted_pairs :: "(string \<times> jsval list) list" where
  "dotted_pairs =
     [(''9'',
       [JObj [(''kind'', JStr ''text''), (''payload'', JStr ''x''),
              (''manifest'', JObj [(''from'', JStr ''9.a.b''), (''promptId'', JStr ''p'')])],
        JObj [(''kind'', JStr ''text''), (''payload'', JStr ''y''),
              (''manifest'', JObj [(''from'', JStr ''9.a.b''), (''promptId'', JStr ''p'')])],
        JObj [(''kind'', JStr ''text''), (''payload'', JStr ''z''),
              (''manifest'', JObj [(''from'', JStr ''9.c[0]''), (''promptId'', JStr ''p'')])],
        JObj [(''kind'', JStr ''text''), (''payload'', JStr ''w''),
              (''manifest'', JObj [(''from'', JStr ''9.c[0]''), (''promptId'', JStr ''p'')])]])]"

section \<open>Vocabulary of the polling properties\<close>

text \<open>
  An answer to a history request is pending when \<open>getHistory\<close> accepts it and the loop's
  test fails on it: the loop goes on. \<open>delay cfg n\<close> is the delay the loop computes
  before fetch number \<open>n\<close>.
\<close>

definition pending :: "string \<Rightarrow> error + jsval \<Rightarrow> bool" where
  "pending promptId response =
     (case getHistory promptId response of
        Inl e \<Rightarrow> False
      | Inr histories \<Rightarrow> poll_ready (js_get histories promptId) = Inr False)"

definition delay :: "pollCfg \<Rightarrow> nat \<Rightarrow> jsnum" where
  "delay cfg n = exponentialBackoff n (interval cfg) (backoffCap cfg)"

text \<open>
  The JSON texts of the leaves of a value, as they stand in its JSON text: strings and
  object keys quoted, numbers by their digits, \<open>null\<close> for \<^verbatim>\<open>null\<close> and for an
  \<^verbatim>\<open>undefined\<close> array element; a property whose value is \<^verbatim>\<open>undefined\<close> leaves nothing.
  A string is plain when it holds no quote, no backslash and no control character.
\<close>

fun leaf_texts :: "jsval \<Rightarrow> string list"
  and leaf_texts_list :: "jsval list \<Rightarrow> string list"
  and leaf_texts_members :: "(string \<times> jsval) list \<Rightarrow> string list"
  where
  "leaf_texts JUndefined = []"
| "leaf_texts JNull = [''null'']"
| "leaf_texts (JBool b) = [if b then ''true'' else ''false'']"
| "leaf_texts (JNum t) = [if t = ''NaN'' \<or> t = ''Infinity'' \<or> t = ''-Infinity'' then ''null'' else t]"
| "leaf_texts (JStr s) = [json_quote s]"
| "leaf_texts (JBuf b) = map show_nat b"
| "leaf_texts (JArr xs) = leaf_texts_list xs"
| "leaf_texts (JObj kvs) = leaf_texts_members kvs"
| "leaf_texts_list [] = []"
| "leaf_texts_list (x # xs) = (if x = JUndefined then [''null''] else leaf_texts x) @ leaf_texts_list xs"
| "leaf_texts_members [] = []"
| "leaf_texts_members ((k, v) # kvs) =
     (if v = JUndefined then [] else json_quote k # leaf_texts v) @ leaf_texts_members kvs"

definition plain_string :: "string \<Rightarrow> bool" where
  "plain_string s =
     list_all (\<lambda>c. c \<noteq> CHR 0x22 \<and> c \<noteq> CHR 0x5C \<and> 32 \<le> (of_char c :: nat)) s"

text \<open>
  History bodies for prompt \<open>p1\<close>: one whose record has the status \<open>error\<close> and the
  messages \<^verbatim>\<open>["x"]\<close>; one with the nested messages
  \<^verbatim>\<open>[["execution_error",{"n":1.5}],"a\"b"]\<close>; and one that is still running. \<open>dq\<close> is
  the double quote.
\<close>

definition error_history :: jsval where
  "error_history =
     JObj [(''p1'', JObj [(''status'', JObj [(''status_str'', JStr ''error''),
                                             (''completed'', JBool False),
                                             (''messages'', JArr [JStr ''x''])]),
                          (''outputs'', JObj [])])]"

definition dq :: string where
  "dq = [CHR 0x22]"

definition nested_messages :: jsval where
  "nested_messages =
     JArr [JArr [JStr ''execution_error'', JObj [(''n'', JNum ''1.5'')]], JStr (''a'' @ dq @ ''b'')]"

definition nested_error_history :: jsval where
  "nested_error_history =
     JObj [(''p1'', JObj [(''status'', JObj [(''status_str'', JStr ''error''),
                                             (''completed'', JBool False),
                                             (''messages'', nested_messages)]),
                          (''outputs'', JObj [])])]"

definition running_history :: jsval where
  "running_history =
     JObj [(''p1'', JObj [(''status'', JObj [(''status_str'', JStr ''running''),
                                             (''completed'', JBool False),
                                             (''messages'', JArr [])]),
                          (''outputs'', JObj [])])]"

section \<open>Vocabulary of the output-mapping properties\<close>

text \<open>
  A mapping entry has a plain target when its \<open>to\<close> contains no dot and is none of the
  keys lodash refuses: its path is the single key \<open>to\<close>. \<open>writes artifacts outputs k\<close> lists,
  in order, the objects the entries with target \<open>k\<close> write. An artifact as the extraction
  builds it is an object with \<open>kind\<close> and a defined \<open>payload\<close>.
\<close>

definition plain_to :: "node_output \<Rightarrow> bool" where
  "plain_to entry = (CHR ''.'' \<notin> set (out_to entry) \<and> \<not> unsafe_key (out_to entry))"

definition writes :: "jsval list \<Rightarrow> node_output list \<Rightarrow> string \<Rightarrow> jsval list" where
  "writes artifacts outputs k =
     concat (map (\<lambda>entry. if out_to entry = k
                            then (case resolve artifacts entry of None \<Rightarrow> [] | Some obj \<Rightarrow> [obj])
                            else []) outputs)"

definition extracted :: "jsval \<Rightarrow> bool" where
  "extracted a = (isArtifact a \<and> js_get a ''payload'' \<noteq> JUndefined)"

text \<open>
  Example artifacts found at \<open>9\<close> and \<open>8\<close>, a mapping with the entry
  \<open>{from: "9", to: "image"}\<close> and an entry with a default, and the history body of a
  completed prompt.
\<close>

definition artifact9 :: jsval where
  "artifact9 = JObj [(''kind'', JStr ''text''), (''payload'', JStr ''x''),
                     (''manifest'', JObj [(''from'', JStr ''9''), (''promptId'', JStr ''p'')])]"

definition artifact8 :: jsval where
  "artifact8 = JObj [(''kind'', JStr ''binary''), (''payload'', JBuf [1, 2]),
                     (''manifest'', JObj [(''filename'', JStr ''a.png''), (''type'', JStr ''output''),
                                          (''from'', JStr ''8''), (''promptId'', JStr ''p'')])]"

definition mapping_example :: "node_output list" where
  "mapping_example =
     [\<lparr> out_from = ''9'', out_to = ''image'', defaultValue = JUndefined \<rparr>,
      \<lparr> out_from = ''10'', out_to = ''mask'', defaultValue = JStr ''none'' \<rparr>]"

definition done_history :: jsval where
  "done_history =
     JObj [(''p1'', JObj [(''status'', JObj [(''status_str'', JStr ''success''),
                                             (''completed'', JBool True),
                                             (''messages'', JArr [])]),
                          (''outputs'', JObj [(''9'', JObj [(''text'', JArr [JStr ''x''])])])])]"

section \<open>Properties of JavaScript numbers\<close>

lemma double_limit_code [code]:
  "double_limit = 179769313486231590772930519078902473361797697894230657273430081157732675805500963132708477322407536021120113879871393357658789768814416622492847430639474124377767893424865485276302219601246094119453082952085005768838150682342462881473913110540827237163350510684586298239947245938479716304835356329624224137216"
  by (simp add: double_limit_def)

lemma round_half_even_error: "\<bar>of_int (round_half_even t) - t\<bar> \<le> 1 / 2"
proof -
  define d where "d = t - of_int \<lfloor>t\<rfloor>"
  have d: "0 \<le> d" "d < 1" unfolding d_def by linarith+
  have t: "t = of_int \<lfloor>t\<rfloor> + d" by (simp add: d_def)
  have "round_half_even t = \<lfloor>t\<rfloor> \<and> d \<le> 1 / 2
      \<or> round_half_even t = \<lfloor>t\<rfloor> + 1 \<and> 1 / 2 \<le> d"
    unfolding round_half_even_def Let_def d_def [symmetric] by auto
  thus ?thesis
  proof
    assume a: "round_half_even t = \<lfloor>t\<rfloor> \<and> d \<le> 1 / 2"
    have "of_int (round_half_even t) - t = - d" using a by (subst (2) t) simp
    thus ?thesis using a d by simp
  next
    assume a: "round_half_even t = \<lfloor>t\<rfloor> + 1 \<and> 1 / 2 \<le> d"
    have "of_int (round_half_even t) - t = 1 - d" using a by (subst (2) t) simp
    thus ?thesis using a d by simp
  qed
qed

lemma round_half_even_nonneg: "0 \<le> t \<Longrightarrow> 0 \<le> round_half_even t"
  by (auto simp: round_half_even_def Let_def)

lemma round_half_even_int: "round_half_even (of_int k) = k"
  by (simp add: round_half_even_def)

lemma bitlen_nonneg: "0 \<le> bitlen n"
  by (induction n rule: bitlen.induct) (subst bitlen.simps, simp)

lemma bitlen_bounds: "0 < n \<Longrightarrow> 2 ^ nat (bitlen n) \<le> 2 * n \<and> n < 2 ^ nat (bitlen n)"
proof (induction n rule: bitlen.induct)
  case (1 n)
  have n: "\<not> n \<le> 0" using 1(2) by simp
  have bl: "bitlen n = 1 + bitlen (n div 2)" using n by (subst bitlen.simps) simp
  show ?case
  proof (cases "n div 2 = 0")
    case True
    hence "n = 1" using 1(2) by presburger
    moreover have "bitlen 0 = 0" by (subst bitlen.simps) simp
    ultimately show ?thesis using bl by simp
  next
    case False
    hence m: "0 < n div 2" using 1(2) by presburger
    from 1(1) [OF n m]
    have ih: "2 ^ nat (bitlen (n div 2)) \<le> 2 * (n div 2)" "n div 2 < 2 ^ nat (bitlen (n div 2))"
      by simp_all
    have nn: "nat (bitlen n) = Suc (nat (bitlen (n div 2)))"
      using bl bitlen_nonneg [of "n div 2"] by simp
    have "2 * (n div 2) \<le> n" "n < 2 * (n div 2) + 2" by presburger+
    thus ?thesis using ih by (simp add: nn)
  qed
qed

lemma exponent_bounds:
  assumes "0 < x"
  shows "2 powi (exponent x) \<le> x \<and> x < 2 powi (exponent x + 1)"
proof -
  obtain p q where pq: "quotient_of x = (p, q)" by (cases "quotient_of x")
  have q: "0 < q" using quotient_of_denom_pos [OF pq] .
  have x: "x = of_int p / of_int q" using quotient_of_div [OF pq] .
  have p: "0 < p" using assms q by (simp add: x zero_less_divide_iff)
  define P where "P = bitlen p"
  define Q where "Q = bitlen q"
  have P0: "0 \<le> P" and Q0: "0 \<le> Q" by (simp_all add: P_def Q_def bitlen_nonneg)
  have bp: "(2::int) ^ nat P \<le> 2 * p" "p < 2 ^ nat P"
    using bitlen_bounds [OF p] by (simp_all add: P_def)
  have bq: "(2::int) ^ nat Q \<le> 2 * q" "q < 2 ^ nat Q"
    using bitlen_bounds [OF q] by (simp_all add: Q_def)
  have rp: "(2::rat) powi P \<le> 2 * of_int p" "(of_int p :: rat) < 2 powi P"
  proof -
    have "(of_int (2 ^ nat P) :: rat) \<le> of_int (2 * p)" using bp(1) by (simp only: of_int_le_iff)
    thus "(2::rat) powi P \<le> 2 * of_int p" using P0 by (simp add: power_int_nonneg_exp)
    have "(of_int p :: rat) < of_int (2 ^ nat P)" using bp(2) by (simp only: of_int_less_iff)
    thus "(of_int p :: rat) < 2 powi P" using P0 by (simp add: power_int_nonneg_exp)
  qed
  have rq: "(2::rat) powi Q \<le> 2 * of_int q" "(of_int q :: rat) < 2 powi Q"
  proof -
    have "(of_int (2 ^ nat Q) :: rat) \<le> of_int (2 * q)" using bq(1) by (simp only: of_int_le_iff)
    thus "(2::rat) powi Q \<le> 2 * of_int q" using Q0 by (simp add: power_int_nonneg_exp)
    have "(of_int q :: rat) < of_int (2 ^ nat Q)" using bq(2) by (simp only: of_int_less_iff)
    thus "(of_int q :: rat) < 2 powi Q" using Q0 by (simp add: power_int_nonneg_exp)
  qed
  have qr: "(0::rat) < of_int q" using q by simp
  have pr: "(0::rat) < of_int p" using p by simp
  have Qp: "(0::rat) < 2 powi Q" by simp
  have d: "(2::rat) powi (P - Q) = 2 powi P / 2 powi Q"
    by (simp add: power_int_diff)
  have up: "x < 2 powi (P - Q + 1)"
  proof -
    have "(of_int p :: rat) * 2 powi Q < 2 powi P * 2 powi Q"
      using rp(2) Qp by (rule mult_strict_right_mono)
    also have "\<dots> \<le> 2 powi P * (2 * of_int q)"
      using rq(1) by (rule mult_left_mono) simp
    finally have "(of_int p :: rat) / of_int q < 2 * (2 powi P / 2 powi Q)"
      using qr Qp by (simp add: field_simps)
    thus ?thesis by (simp add: x power_int_add d mult_ac)
  qed
  have lo: "2 powi (P - Q - 1) < x"
  proof -
    have "(2::rat) powi P * of_int q < 2 powi P * 2 powi Q"
      using rq(2) by (intro mult_strict_left_mono) simp_all
    also have "\<dots> \<le> (2 * of_int p) * 2 powi Q"
      using rp(1) by (rule mult_right_mono) simp
    finally have "((2::rat) powi P / 2 powi Q) / 2 < of_int p / of_int q"
      using qr Qp by (simp add: field_simps)
    thus ?thesis by (simp add: x power_int_diff mult_ac)
  qed
  show ?thesis
    using up lo by (auto simp: exponent_def pq P_def [symmetric] Q_def [symmetric] Let_def not_less)
qed

lemma exponent_below_one:
  assumes "0 < x" "x < 1"
  shows "exponent x \<le> - 1"
proof (rule ccontr)
  assume "\<not> exponent x \<le> - 1"
  hence "0 \<le> exponent x" by simp
  hence "(1::rat) \<le> 2 powi (exponent x)" by simp
  thus False using exponent_bounds [OF assms(1)] assms(2) by simp
qed

lemma exponent_unique:
  assumes x: "0 < x" and lo: "2 powi e \<le> x" and hi: "x < 2 powi (e + 1)"
  shows "exponent x = e"
proof (rule ccontr)
  assume ne: "exponent x \<noteq> e"
  note b = exponent_bounds [OF x]
  show False
  proof (cases "exponent x < e")
    case True
    hence "(2::rat) powi (exponent x + 1) \<le> 2 powi e"
      by (intro power_int_increasing) simp_all
    thus False using b lo by simp
  next
    case False
    hence "(2::rat) powi (e + 1) \<le> 2 powi (exponent x)"
      using ne by (intro power_int_increasing) simp_all
    thus False using b hi by simp
  qed
qed

lemma exponent_scale:
  assumes "0 < x"
  shows "exponent (x * 2 ^ a) = exponent x + int a"
proof -
  have p: "(2::rat) powi (e + int a) = 2 powi e * 2 ^ a" for e
    by (simp add: power_int_add)
  note b = exponent_bounds [OF assms]
  show ?thesis
  proof (rule exponent_unique)
    show "0 < x * 2 ^ a" using assms by simp
    show "2 powi (exponent x + int a) \<le> x * 2 ^ a"
      using b by (simp add: p)
    have "exponent x + int a + 1 = (exponent x + 1) + int a" by simp
    thus "x * 2 ^ a < 2 powi (exponent x + int a + 1)"
      using b by (simp only: p) simp
  qed
qed

lemma ulp_pos: "0 < ulp x"
  by (simp add: ulp_def)

lemma round_double_nonneg: "0 \<le> x \<Longrightarrow> 0 \<le> round_double x"
  using ulp_pos [of x]
  by (auto simp: round_double_def sgn_if intro!: mult_nonneg_nonneg round_half_even_nonneg)

lemma round_double_ulp:
  assumes "0 < x"
  shows "\<bar>round_double x - x\<bar> \<le> ulp x / 2"
proof -
  define u where "u = ulp x"
  have u: "0 < u" by (simp add: u_def ulp_pos)
  have rd: "round_double x = u * of_int (round_half_even (x / u))"
    using assms by (simp add: round_double_def u_def)
  have "round_double x - x = u * (of_int (round_half_even (x / u)) - x / u)"
    using u by (simp add: rd field_simps)
  hence "\<bar>round_double x - x\<bar> = u * \<bar>of_int (round_half_even (x / u)) - x / u\<bar>"
    using u by (simp add: abs_mult)
  also have "\<dots> \<le> u * (1 / 2)"
    using u round_half_even_error [of "x / u"] by (intro mult_left_mono) simp_all
  finally show ?thesis by (simp add: u_def)
qed

lemma round_double_error:
  assumes "0 \<le> x" "x < 1"
  shows "\<bar>round_double x - x\<bar> \<le> 1 / 2 ^ 54"
proof (cases "x = 0")
  case True
  then show ?thesis by (simp add: round_double_def)
next
  case False
  hence x: "0 < x" using assms(1) by simp
  have "max (exponent \<bar>x\<bar>) (- 1022) - 52 \<le> - 53"
    using exponent_below_one [OF x assms(2)] x by simp
  hence "ulp x \<le> 2 powi (- 53)"
    unfolding ulp_def by (intro power_int_increasing) simp_all
  also have "\<dots> = 1 / 2 ^ 53" by (simp add: power_int_minus_divide)
  finally have "ulp x / 2 \<le> 1 / 2 ^ 54" by simp
  thus ?thesis using round_double_ulp [OF x] by linarith
qed

lemma round_double_fixed:
  assumes "\<bar>x\<bar> / ulp x = of_int k"
  shows "round_double x = x"
proof (cases "x = 0")
  case True
  then show ?thesis by (simp add: round_double_def)
next
  case False
  have "ulp x * of_int k = \<bar>x\<bar>"
    using ulp_pos [of x] assms [symmetric] by simp
  thus ?thesis
    using False by (simp add: round_double_def assms round_half_even_int mult_sgn_abs)
qed

lemma round_double_scale:
  assumes d: "round_double b = b"
  shows "round_double (b * 2 ^ a) = b * 2 ^ a"
proof (cases "b = 0")
  case True
  then show ?thesis by (simp add: round_double_def)
next
  case False
  hence ab: "0 < \<bar>b\<bar>" by simp
  define k where "k = round_half_even (\<bar>b\<bar> / ulp b)"
  have "b = sgn b * (ulp b * of_int k)"
    using d False by (simp add: round_double_def k_def)
  hence "\<bar>b\<bar> = \<bar>ulp b * of_int k\<bar>"
    using False by (metis abs_mult abs_sgn_eq_1 mult_1)
  moreover have "0 \<le> k"
    unfolding k_def using ulp_pos [of b] by (intro round_half_even_nonneg) simp
  ultimately have bk: "\<bar>b\<bar> = ulp b * of_int k"
    using ulp_pos [of b] by (simp add: abs_mult)
  define e where "e = exponent \<bar>b\<bar>"
  define j where "j = max e (- 1022) + int a - max (e + int a) (- 1022)"
  have j: "0 \<le> j" by (simp add: j_def)
  have ex: "exponent \<bar>b * 2 ^ a\<bar> = e + int a"
    using exponent_scale [OF ab, of a] by (simp add: abs_mult e_def)
  have "max e (- 1022) - 52 + int a = (max (e + int a) (- 1022) - 52) + j"
    by (simp add: j_def)
  hence "(2::rat) powi (max e (- 1022) - 52 + int a)
      = 2 powi (max (e + int a) (- 1022) - 52) * 2 powi j"
    by (simp only: power_int_add [of 2, OF disjI1] zero_neq_numeral not_False_eq_True)
  moreover have "(2::rat) powi (max e (- 1022) - 52 + int a) = 2 powi (max e (- 1022) - 52) * 2 ^ a"
    by (subst power_int_add) simp_all
  ultimately have u: "ulp b * 2 ^ a = ulp (b * 2 ^ a) * 2 ^ nat j"
    using j by (simp add: ulp_def ex e_def [symmetric] power_int_nonneg_exp)
  have "\<bar>b * 2 ^ a\<bar> = ulp (b * 2 ^ a) * of_int (k * 2 ^ nat j)"
    using u by (simp add: abs_mult bk mult_ac)
  hence "\<bar>b * 2 ^ a\<bar> / ulp (b * 2 ^ a) = of_int (k * 2 ^ nat j)"
    using ulp_pos [of "b * 2 ^ a"] by (simp add: field_simps)
  thus ?thesis by (rule round_double_fixed)
qed

lemma double_limit_gt_one: "1 < double_limit"
  by (simp add: double_limit_def)


section \<open>Properties of the backoff schedule\<close>

lemma js_min_fin: "js_min (Fin p) (Fin c) = Fin (min p c)"
  by (simp add: min_def)

lemma backoff_no_overflow:
  assumes d: "round_double b = b" and a: "attempt < 1024"
    and r: "\<bar>b\<bar> * 2 ^ attempt < double_limit"
  shows "exponentialBackoff attempt (Fin b) (Fin c) = Fin (min (b * 2 ^ attempt) c)"
proof -
  have rd: "round_double (b * 2 ^ attempt) = b * 2 ^ attempt"
    by (rule round_double_scale [OF d])
  have "\<bar>b * 2 ^ attempt\<bar> < double_limit" using r by (simp add: abs_mult)
  hence "\<not> double_limit \<le> b * 2 ^ attempt" "\<not> b * 2 ^ attempt \<le> - double_limit"
    by (simp_all only: abs_less_iff) linarith+
  hence "js_round (b * 2 ^ attempt) = Fin (b * 2 ^ attempt)"
    unfolding js_round_def Let_def rd by simp
  thus ?thesis
    using a by (simp add: exponentialBackoff_def js_pow2_def js_min_fin)
qed

lemma backoff_from_one:
  assumes d: "round_double b = b" and b: "1 \<le> b" and c: "c < double_limit"
  shows "exponentialBackoff attempt (Fin b) (Fin c) = Fin (min (b * 2 ^ attempt) c)"
proof (cases "attempt < 1024 \<and> b * 2 ^ attempt < double_limit")
  case True
  hence "\<bar>b\<bar> * 2 ^ attempt < double_limit" using b by simp
  thus ?thesis using backoff_no_overflow [OF d] True by simp
next
  case False
  have big: "double_limit \<le> b * 2 ^ attempt"
  proof (cases "attempt < 1024")
    case True
    then show ?thesis using False by simp
  next
    case False
    hence "(2::rat) ^ 1024 \<le> 2 ^ attempt" by (intro power_increasing) simp_all
    also have "\<dots> \<le> b * 2 ^ attempt" using b by simp
    finally show ?thesis by (simp only: double_limit_def)
  qed
  have rd: "round_double (b * 2 ^ attempt) = b * 2 ^ attempt"
    by (rule round_double_scale [OF d])
  have t: "js_times (Fin b) (js_pow2 attempt) = PosInf"
  proof (cases "attempt < 1024")
    case True
    then show ?thesis
      using big unfolding js_pow2_def by (simp add: js_round_def Let_def rd)
  next
    case False
    then show ?thesis using b by (simp add: js_pow2_def inf_of_sign_def)
  qed
  have "min (b * 2 ^ attempt) c = c" using big c by simp
  thus ?thesis by (simp add: exponentialBackoff_def t)
qed

lemma backoff_below_cap: "\<not> js_less cap (exponentialBackoff attempt base cap)"
  unfolding exponentialBackoff_def
  by (cases "js_times base (js_pow2 attempt)"; cases cap) simp_all

lemma backoff_mono:
  assumes d: "round_double b = b" and b: "1 \<le> b" and c: "c < double_limit" and le: "m \<le> n"
  shows "\<not> js_less (exponentialBackoff n (Fin b) (Fin c)) (exponentialBackoff m (Fin b) (Fin c))"
proof -
  have "(2::rat) ^ m \<le> 2 ^ n" using le by (simp add: power_increasing)
  hence "b * 2 ^ m \<le> b * 2 ^ n" using b by simp
  hence "min (b * 2 ^ m) c \<le> min (b * 2 ^ n) c" by (auto simp: min_def)
  thus ?thesis by (simp only: backoff_from_one [OF d b c] js_less.simps not_less)
qed

lemma backoff_zero:
  assumes "is_double b"
  shows "exponentialBackoff 0 (Fin b) (Fin c) = Fin (min b c)"
  using backoff_no_overflow [of b 0 c] assms by (simp add: is_double_def)

text \<open>
  Claim C8, as the code has it. For a base that is a finite double of at least 1 and a
  cap that is a finite double, the delay is \<open>min (base * 2 ^ attempt) cap\<close> at every
  attempt, and it does not decrease as the attempt grows. For any finite base the same
  formula holds as long as the product does not overflow (the attempt is below 1024 and
  \<open>\<bar>base\<bar> * 2 ^ attempt\<close> is below \<^verbatim>\<open>2^1024\<close>); in particular attempt 0 yields
  \<open>min base cap\<close>, which is the base when the base does not exceed the cap. Whatever
  base and cap are, the delay is never greater than the cap. With base 2000 and cap
  15000 the delays of the attempts 0 to 3 are 2000, 4000, 8000 and 15000.
\<close>

theorem C8_backoff:
  "(is_double base \<longrightarrow> attempt < 1024 \<longrightarrow> \<bar>base\<bar> * 2 ^ attempt < double_limit \<longrightarrow>
      exponentialBackoff attempt (Fin base) (Fin cap) = Fin (min (base * 2 ^ attempt) cap))
   \<and> (is_double base \<longrightarrow> 1 \<le> base \<longrightarrow> is_double cap \<longrightarrow>
        exponentialBackoff attempt (Fin base) (Fin cap) = Fin (min (base * 2 ^ attempt) cap)
        \<and> (m \<le> n \<longrightarrow>
             \<not> js_less (exponentialBackoff n (Fin base) (Fin cap))
                        (exponentialBackoff m (Fin base) (Fin cap))))
   \<and> \<not> js_less limit (exponentialBackoff attempt start limit)
   \<and> (is_double base \<longrightarrow> exponentialBackoff 0 (Fin base) (Fin cap) = Fin (min base cap))
   \<and> (is_double base \<longrightarrow> base \<le> cap \<longrightarrow> exponentialBackoff 0 (Fin base) (Fin cap) = Fin base)
   \<and> map (\<lambda>k. exponentialBackoff k (Fin 2000) (Fin 15000)) [0, 1, 2, 3]
        = [Fin 2000, Fin 4000, Fin 8000, Fin 15000]"
proof (intro conjI impI)
  assume "is_double base" "attempt < 1024" "\<bar>base\<bar> * 2 ^ attempt < double_limit"
  thus "exponentialBackoff attempt (Fin base) (Fin cap) = Fin (min (base * 2 ^ attempt) cap)"
    using backoff_no_overflow [of base attempt cap] by (simp add: is_double_def)
next
  assume h: "is_double base" "1 \<le> base" "is_double cap"
  hence c: "cap < double_limit" and d: "round_double base = base"
    by (simp_all add: is_double_def abs_less_iff)
  show "exponentialBackoff attempt (Fin base) (Fin cap) = Fin (min (base * 2 ^ attempt) cap)"
    using backoff_from_one [OF d h(2) c] .
  show "\<not> js_less (exponentialBackoff n (Fin base) (Fin cap))
                   (exponentialBackoff m (Fin base) (Fin cap))" if "m \<le> n"
    using backoff_mono [OF d h(2) c that] .
next
  show "\<not> js_less limit (exponentialBackoff attempt start limit)"
    by (rule backoff_below_cap)
next
  assume "is_double base"
  thus "exponentialBackoff 0 (Fin base) (Fin cap) = Fin (min base cap)"
    by (rule backoff_zero)
next
  assume "is_double base" "base \<le> cap"
  thus "exponentialBackoff 0 (Fin base) (Fin cap) = Fin base"
    using backoff_zero [of base cap] by simp
next
  show "map (\<lambda>k. exponentialBackoff k (Fin 2000) (Fin 15000)) [0, 1, 2, 3]
        = [Fin 2000, Fin 4000, Fin 8000, Fin 15000]"
    by code_simp
qed

theorem C8_backoff_witness:
  "is_double 2000 \<and> is_double 15000 \<and> (3::nat) < 1024 \<and> \<bar>2000\<bar> * 2 ^ 3 < double_limit
   \<and> (1::rat) \<le> 2000 \<and> (1::nat) \<le> 3 \<and> (2000::rat) \<le> 15000
   \<and> exponentialBackoff 3 (Fin 2000) (Fin 15000) = Fin 15000
   \<and> exponentialBackoff 0 (Fin 2000) (Fin 15000) = Fin 2000
   \<and> \<not> js_less (exponentialBackoff 3 (Fin 2000) (Fin 15000))
                  (exponentialBackoff 1 (Fin 2000) (Fin 15000))"
proof -
  have d: "is_double 2000" "is_double 15000" by code_simp+
  have n: "\<bar>2000\<bar> * 2 ^ 3 < double_limit" by code_simp
  have k: "(3::nat) < 1024" "(1::rat) \<le> 2000" "(1::nat) \<le> 3" "(2000::rat) \<le> 15000"
    by simp_all
  note t = C8_backoff [of 2000 3 15000 1 3]
  have a: "exponentialBackoff 3 (Fin 2000) (Fin 15000) = Fin (min (2000 * 2 ^ 3) 15000)"
    using t d n k by blast
  have m: "\<not> js_less (exponentialBackoff 3 (Fin 2000) (Fin 15000))
                  (exponentialBackoff 1 (Fin 2000) (Fin 15000))"
    using t d k by blast
  have z: "exponentialBackoff 0 (Fin 2000) (Fin 15000) = Fin 2000"
    using t d k by blast
  have a': "exponentialBackoff 3 (Fin 2000) (Fin 15000) = Fin 15000"
    using a by simp
  show ?thesis
    using d n k a' m z by (intro conjI)
qed

text \<open>
  The claim as stated fails where the base exceeds the cap (attempt 0 then yields the
  cap, not the base), where the base is negative (the schedule then decreases), and
  where the base is zero and the attempt is 1024 or more: \<^verbatim>\<open>2 ** 1024\<close> is \<^verbatim>\<open>Infinity\<close>
  and \<^verbatim>\<open>0 * Infinity\<close> is \<^verbatim>\<open>NaN\<close>, which \<^verbatim>\<open>Math.min\<close> returns.
\<close>

theorem C8_backoff_counterexample:
  "exponentialBackoff 0 (Fin 20000) (Fin 15000) \<noteq> Fin 20000
   \<and> js_less (exponentialBackoff 1 (Fin (- 1000)) (Fin 15000))
              (exponentialBackoff 0 (Fin (- 1000)) (Fin 15000))
   \<and> exponentialBackoff 1024 (Fin 0) (Fin 15000) = NaN
   \<and> is_double 20000 \<and> is_double (- 1000) \<and> is_double 0 \<and> is_double 15000"
  by code_simp

section \<open>Properties of the pool\<close>

lemma js_div_zero: "m \<noteq> 0 \<Longrightarrow> js_div 0 m = Fin 0"
  using double_limit_gt_one by (simp add: js_div_def js_round_def round_double_def)

lemma js_div_small:
  "js_div 0 1 = Fin 0" "js_div 1 1 = Fin 1" "js_div 0 2 = Fin 0" "js_div 1 2 = Fin (1 / 2)"
  by code_simp+



lemma ratio_available:
  assumes "pool_wf p" "k < length (clients p)" "available p k"
  shows "js_div (sessionCounts p ! k) (maxConcurrencies p ! k) = Fin (ratio p k)"
    and "0 \<le> ratio p k" and "ratio p k < 1" and "0 \<le> load p k" and "load p k < 1"
proof -
  define c where "c = sessionCounts p ! k"
  define m where "m = maxConcurrencies p ! k"
  have c: "0 \<le> c" "c \<le> 2 ^ 53"
    using assms(1,2) by (simp_all add: pool_wf_def list_all_length c_def)
  have m: "c < m"
    using assms(3) by (simp add: available_def c_def m_def)
  have l: "load p k = of_int c / of_int m" by (simp add: load_def c_def m_def)
  show l0: "0 \<le> load p k" using c m by (simp add: l)
  show l1: "load p k < 1" using c m by (simp add: l)
  have "c * 2 ^ 54 + m < m * 2 ^ 54" using c m by simp
  hence "(of_int (c * 2 ^ 54 + m) :: rat) < of_int (m * 2 ^ 54)" by (simp only: of_int_less_iff)
  hence "(of_int c :: rat) * 2 ^ 54 + of_int m < of_int m * 2 ^ 54" by simp
  hence gap: "load p k + 1 / 2 ^ 54 < 1"
    using c m by (simp add: l field_simps)
  have "\<bar>round_double (load p k) - load p k\<bar> \<le> 1 / 2 ^ 54"
    using round_double_error [OF l0 l1] .
  hence "round_double (load p k) - load p k \<le> 1 / 2 ^ 54" by (simp only: abs_le_iff)
  hence "round_double (load p k) < 1" using gap by linarith
  thus r1: "ratio p k < 1" by (simp add: ratio_def)
  show r0: "0 \<le> ratio p k" using round_double_nonneg [OF l0] by (simp add: ratio_def)
  have "\<not> double_limit \<le> ratio p k" "\<not> ratio p k \<le> - double_limit"
    using r0 r1 double_limit_gt_one by simp_all
  thus "js_div (sessionCounts p ! k) (maxConcurrencies p ! k) = Fin (ratio p k)"
    using m c
    by (simp add: js_div_def js_round_def Let_def ratio_def l c_def [symmetric] m_def [symmetric])
qed


lemma scan_step:
  assumes wf: "pool_wf p" and k: "k < length (clients p)" and inv: "scan_inv p k (best, br)"
  shows "scan_inv p (Suc k)
     (let ratio = js_div (sessionCounts p ! k) (maxConcurrencies p ! k) in
      if js_less ratio br \<and> sessionCounts p ! k < maxConcurrencies p ! k
      then (int k, ratio) else (best, br))"
proof (cases "available p k")
  case False
  then show ?thesis
    using inv by (auto simp: scan_inv_def chosen_def available_def Let_def less_Suc_eq)
next
  case True
  note r = ratio_available(1-3) [OF wf k True]
  show ?thesis
    using inv True r
    by (auto simp: scan_inv_def chosen_def Let_def less_Suc_eq available_def [symmetric])
qed

lemma scan_upt:
  assumes wf: "pool_wf p"
  shows "k \<le> n \<Longrightarrow> n \<le> length (clients p) \<Longrightarrow> scan_inv p k st
         \<Longrightarrow> scan_inv p n (scan p [k..<n] st)"
proof (induction "n - k" arbitrary: k st)
  case 0
  then show ?case by (cases st) simp
next
  case (Suc d)
  obtain best br where st: "st = (best, br)" by (cases st)
  have k: "k < n" using Suc.hyps(2) by simp
  hence kl: "k < length (clients p)" using Suc.prems(2) by simp
  have up: "[k..<n] = k # [Suc k..<n]" using k by (simp add: upt_conv_Cons)
  let ?st' = "(let ratio = js_div (sessionCounts p ! k) (maxConcurrencies p ! k) in
      if js_less ratio br \<and> sessionCounts p ! k < maxConcurrencies p ! k
      then (int k, ratio) else (best, br))"
  have step: "scan_inv p (Suc k) ?st'"
    using scan_step [OF wf kl] Suc.prems(3) st by simp
  have eq: "scan p [k..<n] st = scan p [Suc k..<n] ?st'"
    by (simp add: up st Let_def)
  have "scan_inv p n (scan p [Suc k..<n] ?st')"
    using Suc.hyps(1) [of "Suc k" ?st'] Suc.hyps(2) k Suc.prems(2) step by simp
  thus ?case by (simp add: eq)
qed

lemma select_best_chosen:
  assumes wf: "pool_wf p" and ex: "\<exists>i<length (clients p). available p i"
  shows "\<exists>b. select_best p = int b \<and> chosen p (length (clients p)) b"
proof -
  have "scan_inv p 0 (- 1, Fin 1)" by (simp add: scan_inv_def)
  hence "scan_inv p (length (clients p)) (scan p [0..<length (clients p)] (- 1, Fin 1))"
    using scan_upt [OF wf, of 0 "length (clients p)"] by simp
  thus ?thesis
    using ex unfolding scan_inv_def select_best_def by auto
qed

lemma scan_range:
  "fst (scan p is (best, br)) = best
   \<or> (\<exists>i\<in>set is. fst (scan p is (best, br)) = int i \<and> available p i)"
proof (induction "is" arbitrary: best br)
  case Nil
  then show ?case by simp
next
  case (Cons i "is")
  show ?case
    using Cons.IH [of best br]
      Cons.IH [of "int i" "js_div (sessionCounts p ! i) (maxConcurrencies p ! i)"]
    by (auto simp: Let_def available_def)
qed

lemma select_best_range:
  "select_best p = - 1 \<or> (\<exists>b<length (clients p). select_best p = int b \<and> available p b)"
  using scan_range [of p "[0..<length (clients p)]" "- 1" "Fin 1"]
  by (auto simp: select_best_def)

lemma select_best_saturated:
  assumes none: "\<forall>i<length (clients p). \<not> available p i"
  shows "select_best p = - 1"
  using select_best_range [of p] none by auto















lemma acquire_saturated:
  assumes none: "\<forall>i<length (clients p). \<not> available p i"
  shows "acquire p = (Some \<lparr> lease_client = None, lease_index = - 1 \<rparr>,
                      p\<lparr>nanSlots := insert (- 1) (nanSlots p)\<rparr>)"
  using select_best_saturated [OF none]
  by (simp add: acquire_def increment_def js_index_def Let_def)

text \<open>
  Claim C1 at the saturated pool of the specification's example: one instance with
  cap 1 and one session (the pool \<open>new_pool\<close> builds and one \<open>acquire\<close> fills). There
  \<open>acquire\<close> returns a lease object with no client and index \<open>-1\<close>, \<open>createSession\<close>
  returns a session on that lease, and \<open>withSession\<close> calls the callback with it; its
  result is the callback's, not the saturation error.
\<close>

theorem C1_saturated_pool:
  "new_pool [(''A'', Some 1)] = Inr (poolFull\<lparr>sessionCounts := [0]\<rparr>)
   \<and> snd (acquire (poolFull\<lparr>sessionCounts := [0]\<rparr>)) = poolFull
   \<and> acquire poolFull =
       (Some \<lparr> lease_client = None, lease_index = - 1 \<rparr>, poolFull\<lparr>nanSlots := {- 1}\<rparr>)
   \<and> createSession pl poolFull =
       (Some \<lparr> closed = False, lease = \<lparr> lease_client = None, lease_index = - 1 \<rparr>,
               pipeline = pl \<rparr>, poolFull\<lparr>nanSlots := {- 1}\<rparr>)
   \<and> fst (withSession fn pl poolFull) =
       fst (fn \<lparr> closed = False, lease = \<lparr> lease_client = None, lease_index = - 1 \<rparr>,
                 pipeline = pl \<rparr> (poolFull\<lparr>nanSlots := {- 1}\<rparr>))"
proof -
  have a: "acquire poolFull =
       (Some \<lparr> lease_client = None, lease_index = - 1 \<rparr>, poolFull\<lparr>nanSlots := {- 1}\<rparr>)"
    by (simp add: acquire_def select_best_def poolFull_def js_div_small increment_def js_index_def
        Let_def)
  have b: "snd (acquire (poolFull\<lparr>sessionCounts := [0]\<rparr>)) = poolFull"
    by (simp add: acquire_def select_best_def poolFull_def js_div_small increment_def js_index_def)
  have c: "createSession pl poolFull =
       (Some \<lparr> closed = False, lease = \<lparr> lease_client = None, lease_index = - 1 \<rparr>,
               pipeline = pl \<rparr>, poolFull\<lparr>nanSlots := {- 1}\<rparr>)"
    by (simp add: createSession_def a)
  have w: "fst (withSession fn pl poolFull) =
       fst (fn \<lparr> closed = False, lease = \<lparr> lease_client = None, lease_index = - 1 \<rparr>,
                 pipeline = pl \<rparr> (poolFull\<lparr>nanSlots := {- 1}\<rparr>))"
    by (simp add: withSession_def c split: prod.splits)
  have n: "new_pool [(''A'', Some 1)] = Inr (poolFull\<lparr>sessionCounts := [0]\<rparr>)"
    by (simp add: new_pool_def poolFull_def)
  show ?thesis
    using a b c w n by simp
qed


section \<open>Properties of the session\<close>

lemma closed_fails:
  "closed s \<Longrightarrow> delegate m s w = (Inl (Error ''ComfyUISession already closed''), w)"
  by (simp add: delegate_def assertOpen_def)

lemma open_then_close:
  assumes wf: "pool_wf p" and ex: "\<exists>i<length (clients p). available p i"
    and cs: "createSession pl p = (Some s0, p')"
  shows "snd (close s0 p') = p"
proof -
  obtain b where b: "select_best p = int b" and ch: "chosen p (length (clients p)) b"
    using select_best_chosen [OF wf ex] by blast
  have bl: "b < length (sessionCounts p)" using ch wf by (simp add: chosen_def pool_wf_def)
  have c0: "0 \<le> sessionCounts p ! b"
    using wf bl by (simp add: pool_wf_def list_all_length)
  show ?thesis
    using cs bl c0
    by (auto simp: createSession_def acquire_def b increment_def release_def close_def
        js_index_def Let_def list_update_same_conv)
qed

lemma lease_then_close:
  assumes len: "length (sessionCounts p) = length (clients p)"
    and nn: "list_all (\<lambda>c. 0 \<le> c) (sessionCounts p)"
    and cs: "createSession pl p = (Some s0, p')"
    and ix: "0 \<le> lease_index (lease s0)"
  shows "snd (close s0 p') = p"
proof -
  have li: "lease_index (lease s0) = select_best p"
    using cs by (auto simp: createSession_def acquire_def Let_def)
  then obtain b where b: "select_best p = int b" and bc: "b < length (clients p)"
    using select_best_range [of p] ix by auto
  have bl: "b < length (sessionCounts p)" using bc len by simp
  have c0: "0 \<le> sessionCounts p ! b"
    using nn bl by (simp add: list_all_length)
  show ?thesis
    using cs bl c0
    by (auto simp: createSession_def acquire_def b increment_def release_def close_def
        js_index_def Let_def list_update_same_conv)
qed

text \<open>
  Claim C7. The first \<open>close\<close> of an open session marks it closed and calls the lease's
  \<open>release\<close> once; a session opened on an instance under its cap thereby gives back
  exactly the slot it took, as does every session whose lease is on an instance.
  Closing a closed session changes neither the session nor
  the pool, whatever the pool's state. On a closed session \<open>run\<close>, \<open>queue\<close>, \<open>uploadFile\<close>
  and \<open>getHistory\<close> fail with the "already closed" error and the client's method is not
  applied: the state it would act on is unchanged, whatever the method is.
\<close>

theorem C7_close_idempotent:
  "(\<not> closed s \<longrightarrow>
      close s p = (s\<lparr>closed := True\<rparr>, release (lease_index (lease s)) p))
   \<and> (pool_wf p0 \<longrightarrow> (\<exists>i<length (clients p0). available p0 i) \<longrightarrow>
        createSession pl p0 = (Some s0, p1) \<longrightarrow> \<not> closed s0 \<and> snd (close s0 p1) = p0)
   \<and> (length (sessionCounts p0) = length (clients p0) \<longrightarrow>
        list_all (\<lambda>c. 0 \<le> c) (sessionCounts p0) \<longrightarrow>
        createSession pl p0 = (Some s0, p1) \<longrightarrow> 0 \<le> lease_index (lease s0) \<longrightarrow>
        snd (close s0 p1) = p0)
   \<and> closed (fst (close s p))
   \<and> close (fst (close s p)) q = (fst (close s p), q)
   \<and> session_run run_method (fst (close s p)) w =
        (Inl (Error ''ComfyUISession already closed''), w)
   \<and> session_queue queue_method (fst (close s p)) w =
        (Inl (Error ''ComfyUISession already closed''), w)
   \<and> session_uploadFile uploadFile_method (fst (close s p)) w =
        (Inl (Error ''ComfyUISession already closed''), w)
   \<and> session_getHistory getHistory_method (fst (close s p)) w =
        (Inl (Error ''ComfyUISession already closed''), w)"
proof -
  have c: "closed (fst (close s p))"
    by (simp add: close_def)
  have r: "session_run run_method (fst (close s p)) w =
      (Inl (Error ''ComfyUISession already closed''), w)"
    using c by (simp add: session_run_def assertOpen_def)
  have o: "pool_wf p0 \<longrightarrow> (\<exists>i<length (clients p0). available p0 i) \<longrightarrow>
        createSession pl p0 = (Some s0, p1) \<longrightarrow> \<not> closed s0 \<and> snd (close s0 p1) = p0"
    using open_then_close [of p0 pl s0 p1]
    by (auto simp: createSession_def split: prod.splits option.splits)
  have f: "\<not> closed s \<longrightarrow>
      close s p = (s\<lparr>closed := True\<rparr>, release (lease_index (lease s)) p)"
    by (simp add: close_def)
  have g: "length (sessionCounts p0) = length (clients p0) \<longrightarrow>
        list_all (\<lambda>c. 0 \<le> c) (sessionCounts p0) \<longrightarrow>
        createSession pl p0 = (Some s0, p1) \<longrightarrow> 0 \<le> lease_index (lease s0) \<longrightarrow>
        snd (close s0 p1) = p0"
    using lease_then_close [of p0 pl s0 p1] by blast
  have i: "close (fst (close s p)) q = (fst (close s p), q)"
    by (simp add: close_def)
  show ?thesis
    using c r o f g i
    by (simp add: closed_fails session_queue_def session_uploadFile_def
        session_getHistory_def)
qed

theorem C7_close_idempotent_witness:
  "fst (createSession (None :: processor list option) poolAB) =
     Some \<lparr> closed = False, lease = \<lparr> lease_client = Some ''A'', lease_index = 0 \<rparr>,
            pipeline = None \<rparr>
   \<and> close \<lparr> closed = False, lease = \<lparr> lease_client = Some ''A'', lease_index = 0 \<rparr>,
              pipeline = None :: processor list option \<rparr> (poolAB\<lparr>sessionCounts := [1, 1]\<rparr>) =
       (\<lparr> closed = True, lease = \<lparr> lease_client = Some ''A'', lease_index = 0 \<rparr>,
          pipeline = None \<rparr>, poolAB)
   \<and> close \<lparr> closed = True, lease = \<lparr> lease_client = Some ''A'', lease_index = 0 \<rparr>,
              pipeline = None :: processor list option \<rparr> poolAB =
       (\<lparr> closed = True, lease = \<lparr> lease_client = Some ''A'', lease_index = 0 \<rparr>,
          pipeline = None \<rparr>, poolAB)"
proof -
  let ?s = "\<lparr> closed = False, lease = \<lparr> lease_client = Some ''A'', lease_index = 0 \<rparr>,
              pipeline = None :: processor list option \<rparr>"
  let ?p1 = "poolAB\<lparr>sessionCounts := [1, 1]\<rparr>"
  have wf: "pool_wf poolAB" by (simp add: pool_wf_def poolAB_def)
  have ex: "\<exists>i<length (clients poolAB). available poolAB i"
    by (intro exI [of _ 0]) (simp add: poolAB_def available_def)
  have a: "acquire poolAB = (Some \<lparr> lease_client = Some ''A'', lease_index = 0 \<rparr>, ?p1)"
    by (simp add: acquire_def poolAB_def select_best_def js_div_small increment_def js_index_def
        upt_rec)
  have cs: "createSession None poolAB = (Some ?s, ?p1)"
    by (simp add: createSession_def a)
  have r: "release 0 ?p1 = poolAB"
    by (simp add: release_def js_index_def poolAB_def)
  show ?thesis
    using C7_close_idempotent [where s = ?s and p = ?p1 and q = poolAB and ?p0.0 = poolAB
        and pl = None and ?s0.0 = ?s and ?p1.0 = ?p1] wf ex cs r
    by (simp add: close_def)
qed

section \<open>Properties of the pipeline\<close>

lemma lookup_update: "lookup (AList.update k v kvs) k' = (if k' = k then v else lookup kvs k')"
  by (simp add: lookup_def update_conv')

lemma bus_pipeline_update [simp]: "bus (AList.update ''pipeline'' (JObj st) a) = st"
  by (simp add: bus_def lookup_update)

lemma bus_assign_next [simp]: "bus (assign_next a n) = bus a"
  by (simp add: bus_def assign_next_def lookup_update)

lemma lookup_assign_next_pipeline [simp]:
  "lookup (assign_next a n) ''pipeline'' = lookup a ''pipeline''"
  by (simp add: assign_next_def lookup_update)

lemma process_loop_settled:
  "\<forall>p\<in>set ps. settled p artifact \<Longrightarrow>
     process_loop ps (artifact, calls) = Inr (artifact, calls)"
  by (induction ps) (auto simp: settled_def)

lemma truthy_bus_plain:
  "truthy (lookup (bus artifact) n) \<Longrightarrow> isPlainObject (lookup artifact ''pipeline'')"
  by (cases "lookup artifact ''pipeline''") (simp_all add: bus_def lookup_def)

text \<open>
  Through the loop, the bus entry of a name that holds a truthy value is neither
  rewritten nor is a processor of that name called: only the processor of a name writes
  its entry, and \<^verbatim>\<open>next\<close> does not touch the bus.
\<close>

lemma process_loop_keeps:
  "truthy (lookup (bus artifact) n) \<Longrightarrow> process_loop ps (artifact, calls) = Inr (a', calls')
   \<Longrightarrow> (\<exists>new. calls' = calls @ new \<and> n \<notin> set new) \<and> lookup (bus a') n = lookup (bus artifact) n"
proof (induction ps arbitrary: artifact calls)
  case Nil
  then show ?case by simp
next
  case (Cons p ps)
  show ?case
  proof (cases "truthy (lookup (bus artifact) (name p))")
    case True
    then show ?thesis using Cons by simp
  next
    case untouched: False
    hence ne: "name p \<noteq> n" using Cons.prems(1) by auto
    show ?thesis
    proof (cases "shouldRun p (JObj artifact)")
      case (Inl e)
      then show ?thesis using Cons.prems untouched by simp
    next
      case guard: (Inr b)
      show ?thesis
      proof (cases b)
        case False
        then show ?thesis using Cons guard untouched by simp
      next
        case True
        show ?thesis
        proof (cases "run p (JObj artifact)")
          case (Inl e)
          then show ?thesis using Cons.prems untouched guard True by simp
        next
          case r: (Inr r)
          let ?stored = "AList.update ''pipeline''
               (JObj (AList.update (name p) (output_value r) (bus artifact))) artifact"
          let ?a = "case next_artifact r of None \<Rightarrow> ?stored | Some n \<Rightarrow> assign_next ?stored n"
          have b: "bus ?a = AList.update (name p) (output_value r) (bus artifact)"
            by (cases "next_artifact r") simp_all
          have l: "lookup (bus ?a) n = lookup (bus artifact) n"
            using ne by (simp add: b lookup_update)
          have step: "process_loop ps (?a, calls @ [name p]) = Inr (a', calls')"
            using Cons.prems(2) untouched guard True r by (simp add: Let_def)
          from Cons.IH [OF _ step] l Cons.prems(1)
          obtain new where "calls' = (calls @ [name p]) @ new" "n \<notin> set new"
            and "lookup (bus a') n = lookup (bus ?a) n" by auto
          then show ?thesis using ne l by auto
        qed
      qed
    qed
  qed
qed

lemma process_loop_plain:
  "isPlainObject (lookup artifact ''pipeline'') \<Longrightarrow>
     process_loop ps (artifact, calls) = Inr (a', calls') \<Longrightarrow>
     isPlainObject (lookup a' ''pipeline'')"
proof (induction ps arbitrary: artifact calls)
  case Nil
  then show ?case by simp
next
  case (Cons p ps)
  show ?case
  proof (cases "settled p artifact")
    case True
    hence "process_loop (p # ps) (artifact, calls) = process_loop ps (artifact, calls)"
      by (auto simp: settled_def)
    then show ?thesis using Cons by simp
  next
    case False
    hence untouched: "\<not> truthy (lookup (bus artifact) (name p))"
      and guard: "shouldRun p (JObj artifact) \<noteq> Inr False"
      by (simp_all add: settled_def)
    show ?thesis
    proof (cases "shouldRun p (JObj artifact)")
      case (Inl e)
      then show ?thesis using Cons.prems untouched by simp
    next
      case (Inr b)
      hence g: "shouldRun p (JObj artifact) = Inr True" using guard by (cases b) simp_all
      show ?thesis
      proof (cases "run p (JObj artifact)")
        case (Inl e)
        then show ?thesis using Cons.prems untouched g by simp
      next
        case r: (Inr r)
        let ?stored = "AList.update ''pipeline''
             (JObj (AList.update (name p) (output_value r) (bus artifact))) artifact"
        let ?a = "case next_artifact r of None \<Rightarrow> ?stored | Some n \<Rightarrow> assign_next ?stored n"
        have pl: "isPlainObject (lookup ?a ''pipeline'')"
          by (cases "next_artifact r") (simp_all add: lookup_update)
        have step: "process_loop ps (?a, calls @ [name p]) = Inr (a', calls')"
          using Cons.prems(2) untouched g r by (simp add: Let_def)
        from Cons.IH [OF pl step] show ?thesis .
      qed
    qed
  qed
qed

lemma processArtifact_plain:
  "isPlainObject (lookup artifact ''pipeline'') \<Longrightarrow>
     processArtifact ps artifact = process_loop ps (artifact, [])"
  by (cases "lookup artifact ''pipeline''") (simp_all add: processArtifact_def)

lemma processArtifact_result_plain:
  assumes "processArtifact ps artifact = Inr (a1, calls1)"
  shows "isPlainObject (lookup a1 ''pipeline'')"
proof (cases "nullish (lookup artifact ''pipeline'')")
  case True
  hence "process_loop ps (AList.update ''pipeline'' (JObj []) artifact, []) = Inr (a1, calls1)"
    using assms by (simp add: processArtifact_def)
  moreover have "isPlainObject (lookup (AList.update ''pipeline'' (JObj []) artifact) ''pipeline'')"
    by (simp add: lookup_update)
  ultimately show ?thesis by (rule process_loop_plain [rotated])
next
  case False
  hence pl: "isPlainObject (lookup artifact ''pipeline'')"
    using assms by (simp add: processArtifact_def split: if_splits)
  hence "process_loop ps (artifact, []) = Inr (a1, calls1)"
    using assms by (simp add: processArtifact_plain)
  with pl show ?thesis by (rule process_loop_plain)
qed

lemma processArtifact_done:
  assumes "\<forall>p\<in>set ps. settled p artifact"
    and "isPlainObject (lookup artifact ''pipeline'')"
  shows "processArtifact ps artifact = Inr (artifact, [])"
  using assms by (simp add: processArtifact_plain process_loop_settled)

lemma walk_processed: "processed ps a \<Longrightarrow> walk ps a = Inr (a, [])"
  by (cases a) (simp_all add: processed_def processArtifact_done list_all_iff)

lemma walk_list_processed: "list_all (processed ps) xs \<Longrightarrow> walk_list ps xs = Inr (xs, [])"
  by (induction xs) (simp_all add: walk_processed)

text \<open>
  Claim C3, as the code has it. A processor whose name holds a truthy bus entry on the
  artifact is not called by \<open>processArtifact\<close> and its entry stays as it is. When every
  processor of the pipeline is settled on an artifact with a bus (it holds a truthy
  entry there, or its \<open>shouldRun\<close> declines the artifact), processing the artifact calls
  no processor and returns it as it was (bus, payload, kind and manifest); this is so in
  particular for the artifact a first run has returned, whenever every processor is
  settled on it; and \<open>Pipeline.run\<close> on a list of such artifacts returns the list
  unchanged.
\<close>

theorem C3_settled_not_rerun:
  "(truthy (lookup (bus artifact) n) \<longrightarrow> processArtifact ps artifact = Inr (a', calls) \<longrightarrow>
      n \<notin> set calls \<and> lookup (bus a') n = lookup (bus artifact) n)
   \<and> ((\<forall>p\<in>set ps. truthy (lookup (bus artifact) (name p))
                    \<or> shouldRun p (JObj artifact) = Inr False) \<longrightarrow>
        isPlainObject (lookup artifact ''pipeline'') \<longrightarrow>
        processArtifact ps artifact = Inr (artifact, []))
   \<and> (processArtifact ps artifact0 = Inr (a1, calls1) \<longrightarrow>
        (\<forall>p\<in>set ps. truthy (lookup (bus a1) (name p)) \<or> shouldRun p (JObj a1) = Inr False) \<longrightarrow>
        processArtifact ps a1 = Inr (a1, []))
   \<and> (list_all (processed ps) artifacts \<longrightarrow>
        pipeline_run ps (JArr artifacts) = Inr (JArr artifacts))"
proof (intro conjI impI)
  assume t: "truthy (lookup (bus artifact) n)" and r: "processArtifact ps artifact = Inr (a', calls)"
  have "process_loop ps (artifact, []) = Inr (a', calls)"
    using r processArtifact_plain [OF truthy_bus_plain [OF t]] by simp
  from process_loop_keeps [OF t this]
  show "n \<notin> set calls" and "lookup (bus a') n = lookup (bus artifact) n" by auto
next
  assume "\<forall>p\<in>set ps. truthy (lookup (bus artifact) (name p))
                    \<or> shouldRun p (JObj artifact) = Inr False"
    and "isPlainObject (lookup artifact ''pipeline'')"
  thus "processArtifact ps artifact = Inr (artifact, [])"
    by (intro processArtifact_done) (simp_all add: settled_def)
next
  assume "processArtifact ps artifact0 = Inr (a1, calls1)"
    and "\<forall>p\<in>set ps. truthy (lookup (bus a1) (name p)) \<or> shouldRun p (JObj a1) = Inr False"
  thus "processArtifact ps a1 = Inr (a1, [])"
    by (intro processArtifact_done processArtifact_result_plain [of ps artifact0 a1 calls1])
      (simp_all add: settled_def)
next
  assume "list_all (processed ps) artifacts"
  thus "pipeline_run ps (JArr artifacts) = Inr (JArr artifacts)"
    by (simp add: pipeline_run_def walk_list_processed)
qed

theorem C3_settled_not_rerun_witness:
  "truthy (lookup (bus converted_artifact) ''converter'')
   \<and> processArtifact [uploader, converter] converted_artifact =
       Inr (AList.update ''pipeline''
              (JObj [(''converter'', JBool True), (''uploader'', JObj [(''url'', JStr ''u'')])])
              converted_artifact, [''uploader''])
   \<and> ''converter'' \<notin> set [''uploader'']
   \<and> processArtifact [uploader] text_artifact = Inr (declined_artifact, [])
   \<and> shouldRun uploader (JObj declined_artifact) = Inr False
   \<and> isPlainObject (lookup declined_artifact ''pipeline'')
   \<and> processArtifact [uploader] declined_artifact = Inr (declined_artifact, [])
   \<and> list_all (processed [uploader]) [JObj declined_artifact]
   \<and> pipeline_run [uploader] (JArr [JObj declined_artifact]) = Inr (JArr [JObj declined_artifact])"
proof -
  have t: "truthy (lookup (bus converted_artifact) ''converter'')"
    by (simp add: converted_artifact_def bus_def lookup_def)
  have r: "processArtifact [uploader, converter] converted_artifact =
       Inr (AList.update ''pipeline''
              (JObj [(''converter'', JBool True), (''uploader'', JObj [(''url'', JStr ''u'')])])
              converted_artifact, [''uploader''])"
    by (simp add: processArtifact_def converted_artifact_def uploader_def converter_def
        lookup_def bus_def)
  have f: "processArtifact [uploader] text_artifact = Inr (declined_artifact, [])"
    by (simp add: processArtifact_def text_artifact_def declined_artifact_def uploader_def
        lookup_def bus_def)
  have s: "shouldRun uploader (JObj declined_artifact) = Inr False"
    by (simp add: declined_artifact_def uploader_def lookup_def)
  have p: "isPlainObject (lookup declined_artifact ''pipeline'')"
    by (simp add: declined_artifact_def lookup_def)
  have d: "list_all (processed [uploader]) [JObj declined_artifact]"
    using s p by (simp add: processed_def settled_def declined_artifact_def has_key_def)
  have a: "\<forall>p\<in>set [uploader]. truthy (lookup (bus declined_artifact) (name p))
                    \<or> shouldRun p (JObj declined_artifact) = Inr False"
    using s by simp
  note u = C3_settled_not_rerun [of converted_artifact "''converter''"
        "[uploader, converter]" _ "[''uploader'']" text_artifact declined_artifact "[]" "[]"]
  note v = C3_settled_not_rerun [of declined_artifact "''converter''"
        "[uploader]" declined_artifact "[]" text_artifact declined_artifact "[]"
        "[JObj declined_artifact]"]
  have n: "''converter'' \<notin> set [''uploader'']"
    using u t r by blast
  have x: "processArtifact [uploader] declined_artifact = Inr (declined_artifact, [])"
    using v f a by blast
  have y: "pipeline_run [uploader] (JArr [JObj declined_artifact]) = Inr (JArr [JObj declined_artifact])"
    using v d by blast
  show ?thesis using t r n f s p x y d by (intro conjI)
qed

text \<open>
  The claim as stated fails. By design: a processor that \<open>shouldRun\<close> declined leaves no
  entry and is asked again, and once the converter has rewritten the text artifact into
  a binary one, the second run calls the uploader, which declined it on the first, and
  adds its entry. Apart from that, the loop tests the entry for truthiness: a processor
  whose stored output is 0 has an entry and is called again, and here the second run
  changes the payload; and \<open>cosUploader\<close>, whose entry holds \<open>undefined\<close>, is called
  again on every run.
\<close>

theorem C3_second_run_counterexample:
  "processArtifact [uploader, converter] text_artifact = Inr (converted_artifact, [''converter''])
   \<and> processArtifact [uploader, converter] converted_artifact =
       Inr (AList.update ''pipeline''
              (JObj [(''converter'', JBool True), (''uploader'', JObj [(''url'', JStr ''u'')])])
              converted_artifact, [''uploader''])
   \<and> processArtifact [uploader, converter] converted_artifact \<noteq> Inr (converted_artifact, [])
   \<and> bus converted_artifact = [(''converter'', JBool True)]
   \<and> processArtifact [counter] text_artifact = Inr (counted_artifact, [''counter''])
   \<and> has_key (bus counted_artifact) ''counter''
   \<and> processArtifact [counter] counted_artifact =
       Inr (AList.update ''payload'' (JStr ''hi!!'') counted_artifact, [''counter''])
   \<and> processArtifact [counter] counted_artifact \<noteq> Inr (counted_artifact, [])
   \<and> lookup counted_artifact ''payload'' = JStr ''hi!''
   \<and> processArtifact [cosUploader] binary_artifact = Inr (uploaded_artifact, [''cosUploader''])
   \<and> has_key (bus uploaded_artifact) ''cosUploader''
   \<and> processArtifact [cosUploader] uploaded_artifact = Inr (uploaded_artifact, [''cosUploader''])"
  by (simp add: processArtifact_def text_artifact_def converted_artifact_def counted_artifact_def
      binary_artifact_def uploaded_artifact_def
      uploader_def converter_def counter_def cosUploader_def lookup_def bus_def has_key_def
      assign_next_def)

section \<open>Properties of the extraction walk\<close>

lemma digit_char_inj: "a < 10 \<Longrightarrow> b < 10 \<Longrightarrow> digit_char a = digit_char b \<Longrightarrow> a = b"
proof -
  assume a: "a < 10" and b: "b < 10" and e: "digit_char a = digit_char b"
  have d: "distinct ''0123456789''" by simp
  show "a = b"
    using nth_eq_iff_index_eq [OF d, of a b] a b e by (simp add: digit_char_def)
qed

lemma digit_char_not_bracket: "d < 10 \<Longrightarrow> digit_char d \<noteq> CHR '']''"
proof -
  assume d: "d < 10"
  hence "digit_char d \<in> set ''0123456789''"
    unfolding digit_char_def by (intro nth_mem) simp
  thus ?thesis by auto
qed

lemma show_nat_no_bracket: "CHR '']'' \<notin> set (show_nat n)"
proof (induction n rule: show_nat.induct)
  case (1 n)
  show ?case
  proof (cases "n < 10")
    case True
    then show ?thesis using digit_char_not_bracket [of n] by (auto simp: show_nat.simps [of n])
  next
    case False
    have "n mod 10 < 10" by simp
    then show ?thesis
      using False 1 digit_char_not_bracket [of "n mod 10"]
      by (auto simp: show_nat.simps [of n])
  qed
qed

lemma show_nat_nonempty: "show_nat n \<noteq> []"
  by (simp add: show_nat.simps [of n])

lemma show_nat_inj: "show_nat n = show_nat m \<Longrightarrow> n = m"
proof (induction n arbitrary: m rule: show_nat.induct)
  case (1 n)
  show ?case
  proof (cases "n < 10")
    case n: True
    show ?thesis
    proof (cases "m < 10")
      case True
      then show ?thesis
        using n "1.prems" digit_char_inj [of n m]
        by (simp add: show_nat.simps [of n] show_nat.simps [of m])
    next
      case False
      then show ?thesis
        using n "1.prems" show_nat_nonempty [of "m div 10"]
        by (simp add: show_nat.simps [of n] show_nat.simps [of m])
    qed
  next
    case n: False
    show ?thesis
    proof (cases "m < 10")
      case True
      then show ?thesis
        using n "1.prems" show_nat_nonempty [of "n div 10"]
        by (simp add: show_nat.simps [of n] show_nat.simps [of m])
    next
      case False
      hence "show_nat (n div 10) = show_nat (m div 10) \<and> digit_char (n mod 10) = digit_char (m mod 10)"
        using n "1.prems" by (simp add: show_nat.simps [of n] show_nat.simps [of m])
      hence "n div 10 = m div 10" and "n mod 10 = m mod 10"
        using "1.IH" [OF n, of "m div 10"] digit_char_inj [of "n mod 10" "m mod 10"] by simp_all
      then show ?thesis by (metis div_mult_mod_eq)
    qed
  qed
qed

lemma before_mark:
  assumes "c \<notin> set xs" "c \<notin> set ys" "xs @ c # r = ys @ c # r'"
  shows "xs = ys"
proof -
  have "takeWhile (\<lambda>x. x \<noteq> c) (xs @ c # r) = xs"
    using assms(1) by (auto simp: takeWhile_tail)
  moreover have "takeWhile (\<lambda>x. x \<noteq> c) (ys @ c # r') = ys"
    using assms(2) by (auto simp: takeWhile_tail)
  ultimately show ?thesis using assms(3) by simp
qed

lemma index_segment_inj:
  "show_nat i @ CHR '']'' # r = show_nat j @ CHR '']'' # r' \<Longrightarrow> i = j"
  using before_mark [OF show_nat_no_bracket show_nat_no_bracket] show_nat_inj by blast

lemma key_prefix:
  assumes "key_ok k" "tail_ok r"
  shows "takeWhile (\<lambda>c. \<not> sep c) (k @ r) = k"
proof -
  have "takeWhile (\<lambda>c. \<not> sep c) r = []"
    using assms(2) by (cases r) (simp_all add: tail_ok_def)
  thus ?thesis
    using assms(1) by (simp add: key_ok_def list_all_iff)
qed

lemma key_segment_inj:
  "key_ok k \<Longrightarrow> key_ok k' \<Longrightarrow> tail_ok r \<Longrightarrow> tail_ok r' \<Longrightarrow> k @ r = k' @ r' \<Longrightarrow> k = k'"
  using key_prefix [of k r] key_prefix [of k' r'] by simp

lemma tail_ok_simps [simp]:
  "tail_ok []" "tail_ok (CHR ''.'' # r)" "tail_ok (CHR ''['' # r)"
  by (simp_all add: tail_ok_def sep_def)

lemma leaf_paths:
  "(v, f) \<in> set (walkLeaves node path) \<Longrightarrow> \<exists>r. f = path @ r \<and> tail_ok r"
  "(v, f) \<in> set (walk_array xs i path) \<Longrightarrow>
     \<exists>j r. i \<le> j \<and> f = path @ ''['' @ show_nat j @ '']'' @ r"
  "(v, f) \<in> set (walk_entries kvs path) \<Longrightarrow>
     \<exists>k r. k \<in> fst ` set kvs \<and> f = path @ ''.'' @ k @ r \<and> tail_ok r"
proof (induction node path and xs i path and kvs path
    arbitrary: v f and v f and v f rule: walkLeaves_walk_array_walk_entries.induct)
  case (1 kvs path)
  show ?case
  proof (cases "isBinaryManifest (JObj kvs)")
    case True
    then show ?thesis using "1.prems" by simp
  next
    case False
    then obtain k r where "f = path @ ''.'' @ k @ r"
      using "1.IH" [OF False, of v f] "1.prems" by auto
    then show ?thesis by (intro exI [of _ "''.'' @ k @ r"]) simp
  qed
next
  case (2 xs path)
  then obtain j r where "f = path @ ''['' @ show_nat j @ '']'' @ r" by fastforce
  then show ?case by (intro exI [of _ "''['' @ show_nat j @ '']'' @ r"]) simp
next
  case (10 x xs i path)
  from "10.prems" consider
      "(v, f) \<in> set (walkLeaves x (path @ ''['' @ show_nat i @ '']''))"
    | "(v, f) \<in> set (walk_array xs (Suc i) path)" by auto
  then show ?case
  proof cases
    case 1
    then obtain r where "f = (path @ ''['' @ show_nat i @ '']'') @ r"
      using "10.IH"(1) by blast
    then show ?thesis by (intro exI [of _ i] exI [of _ r]) simp
  next
    case 2
    then obtain j r where "Suc i \<le> j" "f = path @ ''['' @ show_nat j @ '']'' @ r"
      using "10.IH"(2) by blast
    then show ?thesis by (intro exI [of _ j] exI [of _ r]) simp
  qed
next
  case (12 key val kvs path)
  from "12.prems" consider
      "(v, f) \<in> set (walkLeaves val (path @ ''.'' @ key))"
    | "(v, f) \<in> set (walk_entries kvs path)" by auto
  then show ?case
  proof cases
    case 1
    then obtain r where "f = (path @ ''.'' @ key) @ r" "tail_ok r"
      using "12.IH"(1) by blast
    then show ?thesis by (intro exI [of _ key] exI [of _ r]) simp
  next
    case 2
    then obtain k r where "k \<in> fst ` set kvs" "f = path @ ''.'' @ k @ r" "tail_ok r"
      using "12.IH"(2) by blast
    then show ?thesis by (intro exI [of _ k] exI [of _ r]) simp
  qed
qed simp_all

lemma paths_ok_entries_keys: "paths_ok_entries kvs \<Longrightarrow> k \<in> fst ` set kvs \<Longrightarrow> key_ok k"
  by (induction kvs) force+

lemma leaf_paths_distinct:
  "paths_ok node \<Longrightarrow> distinct (map snd (walkLeaves node path))"
  "paths_ok_list xs \<Longrightarrow> distinct (map snd (walk_array xs i path))"
  "distinct (map fst kvs) \<Longrightarrow> paths_ok_entries kvs \<Longrightarrow> distinct (map snd (walk_entries kvs path))"
proof (induction node path and xs i path and kvs path
    rule: walkLeaves_walk_array_walk_entries.induct)
  case (1 kvs path)
  then show ?case by (cases "isBinaryManifest (JObj kvs)") auto
next
  case (10 x xs i path)
  have disj: "f \<notin> snd ` set (walk_array xs (Suc i) path)"
    if "f \<in> snd ` set (walkLeaves x (path @ ''['' @ show_nat i @ '']''))" for f
  proof
    assume "f \<in> snd ` set (walk_array xs (Suc i) path)"
    then obtain v where "(v, f) \<in> set (walk_array xs (Suc i) path)" by auto
    from leaf_paths(2) [OF this]
    obtain j r where j: "Suc i \<le> j" "f = path @ ''['' @ show_nat j @ '']'' @ r"
      by auto
    from that obtain v' where "(v', f) \<in> set (walkLeaves x (path @ ''['' @ show_nat i @ '']''))"
      by auto
    from leaf_paths(1) [OF this]
    obtain r' where "f = (path @ ''['' @ show_nat i @ '']'') @ r'"
      by auto
    hence "show_nat i @ CHR '']'' # r' = show_nat j @ CHR '']'' # r"
      using j(2) by simp
    hence "i = j" by (rule index_segment_inj)
    thus False using j(1) by simp
  qed
  have "distinct (map snd (walkLeaves x (path @ ''['' @ show_nat i @ '']'')))"
    and "distinct (map snd (walk_array xs (Suc i) path))"
    using "10.IH" "10.prems" by simp_all
  moreover have "snd ` set (walkLeaves x (path @ ''['' @ show_nat i @ '']''))
      \<inter> snd ` set (walk_array xs (Suc i) path) = {}"
    using disj by blast
  ultimately show ?case by simp
next
  case (12 key val kvs path)
  have kk: "key_ok key" using "12.prems"(2) by simp
  have disj: "f \<notin> snd ` set (walk_entries kvs path)"
    if "f \<in> snd ` set (walkLeaves val (path @ ''.'' @ key))" for f
  proof
    assume "f \<in> snd ` set (walk_entries kvs path)"
    then obtain v where "(v, f) \<in> set (walk_entries kvs path)" by auto
    from leaf_paths(3) [OF this]
    obtain k r where k: "k \<in> fst ` set kvs" "f = path @ ''.'' @ k @ r" "tail_ok r"
      by auto
    have ko: "key_ok k" using paths_ok_entries_keys [of kvs k] k(1) "12.prems"(2) by simp
    from that obtain v' where "(v', f) \<in> set (walkLeaves val (path @ ''.'' @ key))" by auto
    from leaf_paths(1) [OF this]
    obtain r' where r': "f = (path @ ''.'' @ key) @ r'" "tail_ok r'"
      by auto
    hence "key @ r' = k @ r" using k(2) by simp
    hence "key = k" using key_segment_inj [OF kk ko r'(2) k(3)] by simp
    thus False using k(1) "12.prems"(1) by auto
  qed
  have "distinct (map snd (walkLeaves val (path @ ''.'' @ key)))"
    and "distinct (map snd (walk_entries kvs path))"
    using "12.IH" "12.prems" by simp_all
  moreover have "snd ` set (walkLeaves val (path @ ''.'' @ key))
      \<inter> snd ` set (walk_entries kvs path) = {}"
    using disj by blast
  ultimately show ?case by simp
qed simp_all

lemma all_results_map:
  "all_results (map f xs) = Inr ys \<Longrightarrow> list_all2 (\<lambda>x y. f x = Inr y) xs ys"
proof (induction xs arbitrary: ys)
  case Nil
  then show ?case by simp
next
  case (Cons x xs)
  then show ?case
    by (cases "f x"; cases "all_results (map f xs)") auto
qed

lemma lookup_cons: "lookup ((k, v) # kvs) k' = (if k' = k then v else lookup kvs k')"
  by (simp add: lookup_def)

lemma leafToArtifact_from:
  "leafToArtifact download promptId (v, f) = Inr a \<Longrightarrow> manifest_from a = JStr f"
  by (auto simp: leafToArtifact_def manifest_from_def lookup_cons lookup_update Let_def
      split: if_splits sum.splits)

lemma leaves_from:
  "list_all2 (\<lambda>leaf a. leafToArtifact download promptId leaf = Inr a) leaves arts
   \<Longrightarrow> map manifest_from arts = map (JStr \<circ> snd) leaves"
proof (induction rule: list_all2_induct)
  case Nil
  then show ?case by simp
next
  case (Cons leaf leaves a arts)
  then show ?case using leafToArtifact_from [of download promptId "fst leaf" "snd leaf" a] by simp
qed

lemma extract_node_from:
  assumes "extract_node download promptId entry = Inr out"
  shows "map manifest_from (snd out) = map JStr (node_paths entry)"
proof (cases "isPlainObject (snd entry)")
  case False
  then show ?thesis
    using assms by (auto simp: extract_node_def node_paths_def split: prod.splits)
next
  case True
  obtain nodeId nodeOut where e: "entry = (nodeId, nodeOut)" by (cases entry)
  obtain arts where a: "all_results (map (leafToArtifact download promptId)
        (walkLeaves nodeOut nodeId)) = Inr arts" and o: "out = (nodeId, arts)"
    using assms True e by (auto simp: extract_node_def split: sum.splits)
  show ?thesis
    using leaves_from [OF all_results_map [OF a]] True e o by (simp add: node_paths_def)
qed

lemma extract_from:
  "list_all2 (\<lambda>entry out. extract_node download promptId entry = Inr out) entries pairs
   \<Longrightarrow> map manifest_from (unwrapArtifacts pairs) = map JStr (concat (map node_paths entries))"
proof (induction rule: list_all2_induct)
  case Nil
  then show ?case by (simp add: unwrapArtifacts_def)
next
  case (Cons entry entries out pairs)
  then show ?case
    using extract_node_from [of download promptId entry out] by (simp add: unwrapArtifacts_def)
qed

lemma node_paths_shape:
  "f \<in> set (node_paths entry) \<Longrightarrow> \<exists>r. f = fst entry @ r \<and> tail_ok r"
proof -
  assume "f \<in> set (node_paths entry)"
  then obtain v where "(v, f) \<in> set (walkLeaves (snd entry) (fst entry))"
    by (auto simp: node_paths_def split: if_splits)
  from leaf_paths(1) [OF this] show ?thesis .
qed

lemma all_paths_distinct:
  "distinct (map fst kvs) \<Longrightarrow> list_all (\<lambda>entry. key_ok (fst entry) \<and> paths_ok (snd entry)) kvs
   \<Longrightarrow> distinct (concat (map node_paths kvs))"
proof (induction kvs)
  case Nil
  then show ?case by simp
next
  case (Cons entry kvs)
  have d: "distinct (node_paths entry)"
    using Cons.prems(2) leaf_paths_distinct(1) [of "snd entry" "fst entry"]
    by (simp add: node_paths_def)
  have rest: "distinct (concat (map node_paths kvs))"
    using Cons by simp
  have disj: "f \<notin> set (concat (map node_paths kvs))" if "f \<in> set (node_paths entry)" for f
  proof
    assume "f \<in> set (concat (map node_paths kvs))"
    then obtain e' where e': "e' \<in> set kvs" "f \<in> set (node_paths e')" by auto
    from node_paths_shape [OF e'(2)] obtain r' where r': "f = fst e' @ r'" "tail_ok r'" by auto
    from node_paths_shape [OF that] obtain r where r: "f = fst entry @ r" "tail_ok r" by auto
    have k: "key_ok (fst entry)" using Cons.prems(2) by simp
    have k': "key_ok (fst e')" using Cons.prems(2) e'(1) by (simp add: list_all_iff)
    have "fst entry = fst e'"
      using key_segment_inj [OF k k' r(2) r'(2)] r(1) r'(1) by simp
    thus False using Cons.prems(1) e'(1) by auto
  qed
  have "set (node_paths entry) \<inter> set (concat (map node_paths kvs)) = {}"
    using disj by blast
  thus ?case using d rest by simp
qed

text \<open>
  Claim C4, as the code has it. When every key the walk passes (node ids included) is
  plain, that is, contains neither \<open>.\<close> nor \<open>[\<close>, the leaves of one walk have pairwise
  distinct paths, and the \<open>manifest.from\<close> values of all artifacts extracted from an
  outputs record are pairwise distinct.
\<close>

theorem C4_paths_unique:
  "(paths_ok node \<longrightarrow> distinct (map snd (walkLeaves node path)))
   \<and> (outputs_ok outputs \<longrightarrow> extractArtifacts download outputs promptId = Inr pairs \<longrightarrow>
        distinct (map manifest_from (unwrapArtifacts pairs)))"
proof (intro conjI impI)
  assume "paths_ok node"
  thus "distinct (map snd (walkLeaves node path))" by (rule leaf_paths_distinct(1))
next
  assume ok: "outputs_ok outputs"
    and ex: "extractArtifacts download outputs promptId = Inr pairs"
  obtain kvs where kvs: "outputs = JObj kvs" "distinct (map fst kvs)"
    "list_all (\<lambda>entry. key_ok (fst entry) \<and> paths_ok (snd entry)) kvs"
    using ok by (cases outputs) (simp_all add: outputs_ok_def)
  have "list_all2 (\<lambda>entry out. extract_node download promptId entry = Inr out) kvs pairs"
    using ex kvs(1) all_results_map [of "extract_node download promptId" kvs pairs]
    by (simp add: extractArtifacts_def)
  hence "map manifest_from (unwrapArtifacts pairs) = map JStr (concat (map node_paths kvs))"
    by (rule extract_from)
  moreover have "distinct (map JStr (concat (map node_paths kvs)))"
    using all_paths_distinct [OF kvs(2,3)] by (simp add: distinct_map inj_on_def)
  ultimately show "distinct (map manifest_from (unwrapArtifacts pairs))" by simp
qed

theorem C4_paths_unique_witness:
  "outputs_ok outputs_example
   \<and> (\<exists>pairs. extractArtifacts fixed_download outputs_example ''p'' = Inr pairs
        \<and> map manifest_from (unwrapArtifacts pairs) =
            [JStr ''8.images[0]'', JStr ''8.images[1]'', JStr ''8.text[0]'', JStr ''9.text[0]'']
        \<and> distinct (map manifest_from (unwrapArtifacts pairs)))"
proof -
  let ?pairs = "case extractArtifacts fixed_download outputs_example ''p'' of
                  Inr pairs \<Rightarrow> pairs | Inl e \<Rightarrow> []"
  have ok: "outputs_ok outputs_example"
    by code_simp
  have ex: "extractArtifacts fixed_download outputs_example ''p'' = Inr ?pairs"
    by code_simp
  have fr: "map manifest_from (unwrapArtifacts ?pairs) =
            [JStr ''8.images[0]'', JStr ''8.images[1]'', JStr ''8.text[0]'', JStr ''9.text[0]'']"
    by code_simp
  have di: "distinct (map manifest_from (unwrapArtifacts ?pairs))"
    using C4_paths_unique [of JNull "[]" outputs_example fixed_download "''p''" ?pairs] ok ex
    by blast
  show ?thesis
  proof (intro conjI exI [of _ ?pairs])
    show "outputs_ok outputs_example" by (rule ok)
    show "extractArtifacts fixed_download outputs_example ''p'' = Inr ?pairs" by (rule ex)
    show "map manifest_from (unwrapArtifacts ?pairs) =
            [JStr ''8.images[0]'', JStr ''8.images[1]'', JStr ''8.text[0]'', JStr ''9.text[0]'']"
      by (rule fr)
    show "distinct (map manifest_from (unwrapArtifacts ?pairs))" by (rule di)
  qed
qed

text \<open>
  The claim as stated fails: a key may itself contain the characters that join the
  segments. The key \<open>a.b\<close> and the key \<open>b\<close> under \<open>a\<close> both give \<open>9.a.b\<close>, and the key
  \<open>c[0]\<close> and index 0 under \<open>c\<close> both give \<open>9.c[0]\<close>.
\<close>

theorem C4_paths_counterexample:
  "extractArtifacts fixed_download outputs_dotted ''p'' = Inr dotted_pairs
   \<and> map manifest_from (unwrapArtifacts dotted_pairs) =
       [JStr ''9.a.b'', JStr ''9.a.b'', JStr ''9.c[0]'', JStr ''9.c[0]'']
   \<and> \<not> distinct (map manifest_from (unwrapArtifacts dotted_pairs))"
  by code_simp

section \<open>Properties of history and polling\<close>

lemma upt_shift: "[a..<Suc (a + n)] = a # [Suc a..<Suc (a + n)]"
  by (simp add: upt_conv_Cons del: upt_Suc)


lemma poll_pending_prefix:
  "list_all (pending pid) pre \<Longrightarrow>
     pollUntilDone cfg dl pid a (pre @ rest) =
       (fst (pollUntilDone cfg dl pid (a + length pre) rest),
        map (delay cfg) [a..<a + length pre] @ snd (pollUntilDone cfg dl pid (a + length pre) rest))"
proof (induction pre arbitrary: a)
  case Nil
  then show ?case by simp
next
  case (Cons r pre)
  then obtain h where h: "getHistory pid r = Inr h" "poll_ready (js_get h pid) = Inr False"
    by (auto simp: pending_def split: sum.splits)
  have "pollUntilDone cfg dl pid (Suc a) (pre @ rest) =
       (fst (pollUntilDone cfg dl pid (Suc a + length pre) rest),
        map (delay cfg) [Suc a..<Suc a + length pre]
          @ snd (pollUntilDone cfg dl pid (Suc a + length pre) rest))"
    using Cons.IH [of "Suc a"] Cons.prems by simp
  then show ?case
    using h upt_shift [of a "length pre"]
    by (simp add: delay_def [of cfg a] Let_def del: upt_Suc)
qed


lemma poll_stops_at_error:
  assumes "getHistory pid r = Inl e"
  shows "pollUntilDone cfg dl pid a (r # rest) = (Some (Inl e), [delay cfg a])"
  using assms by (simp add: delay_def)

lemma getHistory_cases:
  assumes "\<not> nullish histories"
  shows "getHistory pid (Inr histories) =
     (if truthy (js_get histories pid) \<and> status_str (js_get histories pid) = JStr ''error''
      then Inl (Error (error_text pid (js_get histories pid)))
      else Inr histories)"
  using assms by (cases histories) (simp_all add: getHistory_def Let_def)

lemma sublist_within: "sublist a b \<Longrightarrow> sublist a (p @ b @ q)"
  by (meson sublist_appendI sublist_order.order.trans)

lemma sublist_join_commas: "s \<in> set ss \<Longrightarrow> sublist s (join_commas ss)"
proof (induction ss rule: join_commas.induct)
  case 1
  then show ?case by simp
next
  case (2 s')
  then show ?case by simp
next
  case (3 s' t ss)
  show ?case
  proof (cases "s = s'")
    case True
    then show ?thesis by simp
  next
    case False
    hence "sublist s (join_commas (t # ss))" using 3 by simp
    hence "sublist s ((s' @ '','') @ join_commas (t # ss) @ [])" by (rule sublist_within)
    thus ?thesis by simp
  qed
qed

lemma sublist_joined:
  assumes "e \<in> set ss" "sublist a e"
  shows "sublist a (p @ join_commas ss @ q)"
  using sublist_join_commas [OF assms(1)] assms(2)
  by (meson sublist_within sublist_order.order.trans)

lemma leaf_texts_sublist:
  "a \<in> set (leaf_texts v) \<Longrightarrow> sublist a (json_stringify v)"
  "a \<in> set (leaf_texts_list xs) \<Longrightarrow> \<exists>e\<in>set (json_elements xs). sublist a e"
  "a \<in> set (leaf_texts_members kvs) \<Longrightarrow> \<exists>e\<in>set (json_members kvs). sublist a e"
proof (induction v and xs and kvs rule: json_stringify_json_elements_json_members.induct)
  case (6 b)
  hence "a \<in> set (map show_nat b)" by simp
  hence "sublist a ((''{'' @ json_quote ''type'' @ '':'' @ json_quote ''Buffer'' @ '','' @
      json_quote ''data'' @ '':['') @ join_commas (map show_nat b) @ '']}'')"
    by (rule sublist_joined) (rule sublist_order.order.refl)
  thus ?case by simp
next
  case (7 xs)
  then obtain e where "e \<in> set (json_elements xs)" "sublist a e" by auto
  from sublist_joined [OF this, of "''[''" "'']''"] show ?case by simp
next
  case (8 kvs)
  then obtain e where "e \<in> set (json_members kvs)" "sublist a e" by auto
  from sublist_joined [OF this, of "''{''" "''}''"] show ?case by simp
next
  case (10 x xs)
  show ?case using "10.IH" "10.prems" by (auto split: if_splits)
next
  case (12 k v kvs)
  show ?case
  proof (cases "v = JUndefined")
    case True
    then show ?thesis using "12.IH" "12.prems" by simp
  next
    case False
    consider "a = json_quote k" | "a \<in> set (leaf_texts v)" | "a \<in> set (leaf_texts_members kvs)"
      using "12.prems" False by auto
    then show ?thesis
    proof cases
      case 1
      then show ?thesis using False by auto
    next
      case 2
      hence "sublist a (json_stringify v)" using "12.IH" False by simp
      hence "sublist a ((json_quote k @ '':'') @ json_stringify v @ [])" by (rule sublist_within)
      then show ?thesis using False by auto
    next
      case 3
      then show ?thesis using "12.IH" False by auto
    qed
  qed
qed simp_all

lemma escape_char_plain:
  "c \<noteq> CHR 0x22 \<Longrightarrow> c \<noteq> CHR 0x5C \<Longrightarrow> 32 \<le> (of_char c :: nat) \<Longrightarrow> escape_char c = [c]"
  by (auto simp: escape_char_def)

lemma json_quote_plain:
  assumes "plain_string s"
  shows "json_quote s = [CHR 0x22] @ s @ [CHR 0x22]"
proof -
  have "concat (map escape_char s) = s"
    using assms by (induction s) (simp_all add: plain_string_def escape_char_plain)
  thus ?thesis by (simp add: json_quote_def)
qed

lemma getHistory_error_text:
  assumes nn: "\<not> nullish histories" and g: "getHistory pid (Inr histories) = Inl (Error text)"
  shows "text = ''Prompt '' @ pid @ '' failed: '' @
           json_stringify
             (if truthy (js_get (js_get (js_get histories pid) ''status'') ''messages'')
              then js_get (js_get (js_get histories pid) ''status'') ''messages''
              else JStr ''{}'')"
  using g getHistory_cases [OF nn, of pid]
  by (simp add: error_text_def Let_def split: if_splits)

text \<open>
  Claim C6, as the code has it. For a history body other than \<open>null\<close> (the declared
  type is a record of histories): \<open>getHistory\<close> fails exactly when the record of the
  prompt exists and its \<open>status_str\<close> is \<open>error\<close>; the error text is
  \<open>Prompt <id> failed: \<close> followed by the JSON text of the messages (of the string \<open>{}\<close>
  when there are none); in every other case the whole body is returned. The text of
  such an error holds the prompt id and, when there are messages, the JSON text of each
  of their leaves, at any depth: every string in quotes (a plain string unchanged
  between them), every number by its digits, every key. For the messages \<open>["x"]\<close> the
  text is \<open>Prompt p1 failed: ["x"]\<close>; a running prompt's body is returned. In the poll
  loop, after any number of pending answers, an answer on which \<open>getHistory\<close> fails ends
  the loop with that failure: one delay was slept per fetch made, the answers after it
  are not consumed, and \<open>run\<close> fails with the same error.
\<close>

theorem C6_history_error:
  "(\<not> nullish histories \<longrightarrow>
      getHistory pid (Inr histories) =
        (if truthy (js_get histories pid) \<and> status_str (js_get histories pid) = JStr ''error''
         then Inl (Error (''Prompt '' @ pid @ '' failed: '' @
                 json_stringify
                   (if truthy (js_get (js_get (js_get histories pid) ''status'') ''messages'')
                    then js_get (js_get (js_get histories pid) ''status'') ''messages''
                    else JStr ''{}'')))
         else Inr histories))
   \<and> (\<not> nullish histories \<longrightarrow> getHistory pid (Inr histories) = Inl (Error text) \<longrightarrow>
        sublist pid text
        \<and> (truthy (js_get (js_get (js_get histories pid) ''status'') ''messages'') \<longrightarrow>
             (\<forall>a\<in>set (leaf_texts (js_get (js_get (js_get histories pid) ''status'') ''messages'')).
                sublist a text)))
   \<and> (plain_string s \<longrightarrow> leaf_texts (JStr s) = [[CHR 0x22] @ s @ [CHR 0x22]])
   \<and> getHistory ''p1'' (Inr error_history) =
       Inl (Error (''Prompt p1 failed: ['' @ dq @ ''x'' @ dq @ '']''))
   \<and> getHistory ''p1'' (Inr nested_error_history) =
       Inl (Error (''Prompt p1 failed: [['' @ dq @ ''execution_error'' @ dq @ '',{'' @ dq @ ''n''
                     @ dq @ '':1.5}],'' @ dq @ ''a'' @ [CHR 0x5C] @ dq @ ''b'' @ dq @ '']''))
   \<and> getHistory ''p1'' (Inr running_history) = Inr running_history
   \<and> (list_all (pending pid) pre \<longrightarrow> getHistory pid r = Inl e \<longrightarrow>
        pollUntilDone cfg dl pid 0 (pre @ r # rest) =
          (Some (Inl e), map (delay cfg) [0..<Suc (length pre)])
        \<and> client_run cfg dl (Inr pid) (pre @ r # rest) outs = Some (Inl e))"
proof (intro conjI impI ballI)
  assume "\<not> nullish histories"
  thus "getHistory pid (Inr histories) =
        (if truthy (js_get histories pid) \<and> status_str (js_get histories pid) = JStr ''error''
         then Inl (Error (''Prompt '' @ pid @ '' failed: '' @
                 json_stringify
                   (if truthy (js_get (js_get (js_get histories pid) ''status'') ''messages'')
                    then js_get (js_get (js_get histories pid) ''status'') ''messages''
                    else JStr ''{}'')))
         else Inr histories)"
    by (simp add: getHistory_cases error_text_def Let_def)
next
  assume nn: "\<not> nullish histories" and g: "getHistory pid (Inr histories) = Inl (Error text)"
  note t = getHistory_error_text [OF nn g]
  have "sublist pid (''Prompt '' @ pid @ '' failed: '' @
           json_stringify
             (if truthy (js_get (js_get (js_get histories pid) ''status'') ''messages'')
              then js_get (js_get (js_get histories pid) ''status'') ''messages''
              else JStr ''{}''))"
    by (rule sublist_appendI)
  thus "sublist pid text" by (simp only: t)
next
  fix a
  assume nn: "\<not> nullish histories" and g: "getHistory pid (Inr histories) = Inl (Error text)"
    and m: "truthy (js_get (js_get (js_get histories pid) ''status'') ''messages'')"
    and a: "a \<in> set (leaf_texts (js_get (js_get (js_get histories pid) ''status'') ''messages''))"
  have t: "text = (''Prompt '' @ pid @ '' failed: '') @
           json_stringify (js_get (js_get (js_get histories pid) ''status'') ''messages'') @ []"
    using getHistory_error_text [OF nn g] m by simp
  show "sublist a text"
    unfolding t by (rule sublist_within) (rule leaf_texts_sublist(1) [OF a])
next
  assume "plain_string s"
  thus "leaf_texts (JStr s) = [[CHR 0x22] @ s @ [CHR 0x22]]"
    by (simp add: json_quote_plain)
next
  show "getHistory ''p1'' (Inr error_history) =
       Inl (Error (''Prompt p1 failed: ['' @ dq @ ''x'' @ dq @ '']''))"
    by code_simp
next
  show "getHistory ''p1'' (Inr nested_error_history) =
       Inl (Error (''Prompt p1 failed: [['' @ dq @ ''execution_error'' @ dq @ '',{'' @ dq @ ''n''
                     @ dq @ '':1.5}],'' @ dq @ ''a'' @ [CHR 0x5C] @ dq @ ''b'' @ dq @ '']''))"
    by code_simp
next
  show "getHistory ''p1'' (Inr running_history) = Inr running_history"
    by code_simp
next
  assume pre: "list_all (pending pid) pre" and r: "getHistory pid r = Inl e"
  show p: "pollUntilDone cfg dl pid 0 (pre @ r # rest) =
          (Some (Inl e), map (delay cfg) [0..<Suc (length pre)])"
    using poll_pending_prefix [OF pre, of cfg dl 0 "r # rest"]
      poll_stops_at_error [OF r, of cfg dl "length pre" rest]
    by simp
  show "client_run cfg dl (Inr pid) (pre @ r # rest) outs = Some (Inl e)"
    by (simp add: client_run_def p)
qed

theorem C6_history_error_witness:
  "\<not> nullish error_history
   \<and> plain_string ''x''
   \<and> truthy (js_get (js_get (js_get error_history ''p1'') ''status'') ''messages'')
   \<and> list_all (pending ''p1'') [Inr running_history, Inr running_history]
   \<and> getHistory ''p1'' (Inr error_history) =
       Inl (Error (''Prompt p1 failed: ['' @ dq @ ''x'' @ dq @ '']''))
   \<and> sublist ''p1'' (''Prompt p1 failed: ['' @ dq @ ''x'' @ dq @ '']'')
   \<and> sublist ([CHR 0x22] @ ''x'' @ [CHR 0x22]) (''Prompt p1 failed: ['' @ dq @ ''x'' @ dq @ '']'')
   \<and> pollUntilDone (new_pollCfg None None None) fixed_download ''p1'' 0
         ([Inr running_history, Inr running_history] @ Inr error_history # [Inr running_history]) =
       (Some (Inl (Error (''Prompt p1 failed: ['' @ dq @ ''x'' @ dq @ '']''))),
        [Fin 4000, Fin 8000, Fin 15000])
   \<and> client_run (new_pollCfg None None None) fixed_download (Inr ''p1'')
         ([Inr running_history, Inr running_history] @ Inr error_history # [Inr running_history])
         None =
       Some (Inl (Error (''Prompt p1 failed: ['' @ dq @ ''x'' @ dq @ '']'')))"
proof -
  let ?text = "''Prompt p1 failed: ['' @ dq @ ''x'' @ dq @ '']''"
  let ?m = "js_get (js_get (js_get error_history ''p1'') ''status'') ''messages''"
  have o: "\<not> nullish error_history" by (simp add: error_history_def)
  have s: "plain_string ''x''" by code_simp
  have m: "truthy ?m" by code_simp
  have lm: "leaf_texts ?m = leaf_texts (JStr ''x'')" by code_simp
  have p: "list_all (pending ''p1'') [Inr running_history, Inr running_history]" by code_simp
  have d: "map (delay (new_pollCfg None None None))
             [0..<Suc (length [Inr running_history, Inr running_history :: error + jsval])]
      = [Fin 4000, Fin 8000, Fin 15000]"
    by code_simp
  note t = C6_history_error [of error_history "''p1''" ?text "''x''"
      "[Inr running_history, Inr running_history]"
      "Inr error_history" "Error ?text"
      "new_pollCfg None None None" fixed_download "[Inr running_history]" None]
  have e: "getHistory ''p1'' (Inr error_history) = Inl (Error ?text)"
    using t by blast
  have i: "sublist ''p1'' ?text"
    using t o e by blast
  have l: "leaf_texts (JStr ''x'') = [[CHR 0x22] @ ''x'' @ [CHR 0x22]]"
    using t s by blast
  have "\<forall>a\<in>set (leaf_texts ?m). sublist a ?text"
    using t o e m by blast
  hence x: "sublist ([CHR 0x22] @ ''x'' @ [CHR 0x22]) ?text"
    by (simp only: lm l) simp
  have "pollUntilDone (new_pollCfg None None None) fixed_download ''p1'' 0
         ([Inr running_history, Inr running_history] @ Inr error_history # [Inr running_history]) =
       (Some (Inl (Error ?text)),
        map (delay (new_pollCfg None None None))
          [0..<Suc (length [Inr running_history, Inr running_history :: error + jsval])])"
    and cr: "client_run (new_pollCfg None None None) fixed_download (Inr ''p1'')
         ([Inr running_history, Inr running_history] @ Inr error_history # [Inr running_history])
         None = Some (Inl (Error ?text))"
    using t p e by blast+
  hence pr: "pollUntilDone (new_pollCfg None None None) fixed_download ''p1'' 0
         ([Inr running_history, Inr running_history] @ Inr error_history # [Inr running_history]) =
       (Some (Inl (Error ?text)), [Fin 4000, Fin 8000, Fin 15000])"
    by (simp only: d)
  show ?thesis using o s m p e i x pr cr by (intro conjI)
qed

text \<open>
  The claim as stated fails for a body that is \<open>null\<close>, which the transport returns for
  the response text \<^verbatim>\<open>null\<close>: reading \<^verbatim>\<open>histories[promptId]\<close> then throws a TypeError,
  although no record with the status \<open>error\<close> was fetched.
\<close>

theorem C6_history_error_counterexample:
  "getHistory ''p1'' (Inr JNull) = Inl TypeError
   \<and> status_str (js_get JNull ''p1'') = JUndefined
   \<and> js_get JNull ''p1'' = JUndefined"
  by (simp add: getHistory_def status_str_def)





section \<open>Properties of the output mapping\<close>

lemma split_dots_plain: "CHR ''.'' \<notin> set k \<Longrightarrow> split_dots k = [k]"
  by (induction k) auto

lemma byFrom_fold:
  "fold (\<lambda>art m. case manifest_from art of JStr f \<Rightarrow> m(f \<mapsto> art) | _ \<Rightarrow> m) artifacts m0 f =
     (case filter (\<lambda>a. manifest_from a = JStr f) artifacts of
        [] \<Rightarrow> m0 f
      | a # as \<Rightarrow> Some (last (a # as)))"
proof (induction artifacts arbitrary: m0)
  case Nil
  then show ?case by simp
next
  case (Cons a artifacts)
  show ?case
    by (cases "manifest_from a") (auto simp: Cons.IH split: list.splits)
qed

lemma byFrom_last:
  "byFrom artifacts f =
     (case filter (\<lambda>a. manifest_from a = JStr f) artifacts of
        [] \<Rightarrow> None
      | a # as \<Rightarrow> Some (last (a # as)))"
  by (simp add: byFrom_def byFrom_fold)

lemma byFrom_Some:
  "byFrom artifacts f = Some a \<Longrightarrow> a \<in> set artifacts \<and> manifest_from a = JStr f"
proof -
  assume s: "byFrom artifacts f = Some a"
  let ?m = "filter (\<lambda>a. manifest_from a = JStr f) artifacts"
  have ne: "?m \<noteq> []" and a: "a = last ?m"
    using s by (auto simp: byFrom_last split: list.splits)
  have "last ?m \<in> set ?m" using ne by (rule last_in_set)
  thus ?thesis using a by auto
qed

lemma byFrom_None:
  "(byFrom artifacts f = None) = (\<forall>a\<in>set artifacts. manifest_from a \<noteq> JStr f)"
proof -
  have "(filter (\<lambda>a. manifest_from a = JStr f) artifacts = []) =
      (\<forall>a\<in>set artifacts. manifest_from a \<noteq> JStr f)"
    by (simp add: filter_empty_conv)
  thus ?thesis
    by (cases "filter (\<lambda>a. manifest_from a = JStr f) artifacts") (simp_all add: byFrom_last)
qed

lemma update_same: "map_of kvs k = Some v \<Longrightarrow> AList.update k v kvs = kvs"
  by (induction kvs) (auto split: if_splits)

lemma spread_artifact:
  assumes "isArtifact a"
  shows "JObj (AList.update ''payload'' (js_get a ''payload'') (props a)) = a"
proof -
  obtain kvs where a: "a = JObj kvs" using assms by (cases a) simp_all
  obtain v where v: "map_of kvs ''payload'' = Some v"
    using assms a by (auto simp: has_key_def)
  show ?thesis using update_same [OF v] by (simp add: a lookup_def v)
qed

lemma apply_fold:
  "list_all plain_to outputs \<Longrightarrow>
     lookup (fold (\<lambda>entry response.
                     case resolve artifacts entry of
                       None \<Rightarrow> response
                     | Some obj \<Rightarrow> set_path response (split_dots (out_to entry)) obj)
                  outputs response) k =
       (if writes artifacts outputs k = [] then lookup response k
        else last (writes artifacts outputs k))"
proof (induction outputs arbitrary: response)
  case Nil
  then show ?case by (simp add: writes_def)
next
  case (Cons entry outputs)
  have p: "split_dots (out_to entry) = [out_to entry]" "\<not> unsafe_key (out_to entry)"
    using Cons.prems by (simp_all add: plain_to_def split_dots_plain)
  have rest: "list_all plain_to outputs" using Cons.prems by simp
  show ?case
  proof (cases "resolve artifacts entry")
    case None
    then show ?thesis using Cons.IH [OF rest, of response] by (simp add: writes_def)
  next
    case (Some obj)
    have w: "writes artifacts (entry # outputs) k =
        (if out_to entry = k then [obj] else []) @ writes artifacts outputs k"
      by (simp add: writes_def Some)
    show ?thesis
      using Cons.IH [OF rest, of "AList.update (out_to entry) obj response"]
      by (simp add: Some p w lookup_update)
  qed
qed

lemma apply_lookup:
  "list_all plain_to outputs \<Longrightarrow>
     lookup (applyNodeOutputs artifacts outputs) k =
       (if writes artifacts outputs k = [] then JUndefined else last (writes artifacts outputs k))"
  using apply_fold [of outputs artifacts "[]" k] by (simp add: applyNodeOutputs_def lookup_def)

lemma writes_single:
  "filter (\<lambda>x. out_to x = out_to entry) outputs = [entry] \<Longrightarrow>
     writes artifacts outputs (out_to entry) =
       (case resolve artifacts entry of None \<Rightarrow> [] | Some obj \<Rightarrow> [obj])"
proof -
  assume f: "filter (\<lambda>x. out_to x = out_to entry) outputs = [entry]"
  have "writes artifacts outputs k =
      concat (map (\<lambda>e. case resolve artifacts e of None \<Rightarrow> [] | Some obj \<Rightarrow> [obj])
                  (filter (\<lambda>x. out_to x = k) outputs))" for k
    by (induction outputs) (simp_all add: writes_def)
  thus ?thesis using f by simp
qed

lemma list_all2_right:
  "list_all2 P xs ys \<Longrightarrow> (\<And>x y. P x y \<Longrightarrow> Q y) \<Longrightarrow> list_all Q ys"
  by (induction rule: list_all2_induct) auto

lemma leafToArtifact_extracted:
  "leafToArtifact download promptId leaf = Inr a \<Longrightarrow> extracted a"
  by (cases leaf)
     (auto simp: leafToArtifact_def extracted_def has_key_def lookup_def
       split: if_splits sum.splits)

lemma extract_node_extracted:
  assumes "extract_node download promptId entry = Inr out"
  shows "list_all extracted (snd out)"
proof (cases "isPlainObject (snd entry)")
  case False
  then show ?thesis using assms by (auto simp: extract_node_def split: prod.splits)
next
  case True
  obtain nodeId nodeOut where e: "entry = (nodeId, nodeOut)" by (cases entry)
  obtain arts where a: "all_results (map (leafToArtifact download promptId)
        (walkLeaves nodeOut nodeId)) = Inr arts" and o: "out = (nodeId, arts)"
    using assms True e by (auto simp: extract_node_def split: sum.splits)
  have "list_all2 (\<lambda>leaf a. leafToArtifact download promptId leaf = Inr a)
      (walkLeaves nodeOut nodeId) arts"
    using all_results_map [OF a] .
  hence "list_all extracted arts"
    by (rule list_all2_right) (rule leafToArtifact_extracted)
  thus ?thesis using o by simp
qed

lemma extractArtifacts_extracted:
  assumes "extractArtifacts download outputs promptId = Inr raw"
  shows "list_all extracted (unwrapArtifacts raw)"
proof -
  have "list_all2 (\<lambda>entry out. extract_node download promptId entry = Inr out)
      (object_entries outputs) raw"
    using assms all_results_map by (simp add: extractArtifacts_def)
  hence "list_all (\<lambda>out. list_all extracted (snd out)) raw"
    by (rule list_all2_right) (rule extract_node_extracted)
  thus ?thesis by (auto simp: unwrapArtifacts_def list_all_iff)
qed

lemma poll_extracted:
  "fst (pollUntilDone cfg dl pid a rs) = Some (Inr raw) \<Longrightarrow> list_all extracted (unwrapArtifacts raw)"
proof (induction rs arbitrary: a)
  case Nil
  then show ?case by simp
next
  case (Cons r rs)
  show ?case
  proof (cases "getHistory pid r")
    case (Inl e)
    then show ?thesis using Cons.prems by simp
  next
    case h: (Inr h)
    show ?thesis
    proof (cases "poll_ready (js_get h pid)")
      case (Inl e)
      then show ?thesis using Cons.prems h by simp
    next
      case (Inr ready)
      show ?thesis
      proof (cases ready)
        case True
        hence "extractArtifacts dl (js_get (js_get h pid) ''outputs'') pid = Inr raw"
          using Cons.prems h Inr by simp
        thus ?thesis by (rule extractArtifacts_extracted)
      next
        case False
        hence "fst (pollUntilDone cfg dl pid (Suc a) rs) = Some (Inr raw)"
          using Cons.prems h Inr by (simp add: Let_def split: prod.splits)
        thus ?thesis by (rule Cons.IH)
      qed
    qed
  qed
qed

text \<open>
  Claim C9, as the code has it. An entry is written at the path its \<open>to\<close> splits into at
  the dots, in the order of the entries. When every \<open>to\<close> is a plain key, the result holds
  at each key the last object written there. For an entry whose \<open>to\<close> no other entry
  shares: if some artifact has \<open>manifest.from\<close> equal to the entry's \<open>from\<close>, the result
  holds at \<open>to\<close> such an artifact (the one \<open>byFrom\<close> keeps) with its payload; if none has,
  it holds the object with the default as payload, or nothing when there is no default.
  Without a mapping, or with an empty one, \<open>run\<close> returns the flat array of the extracted
  artifacts; with a mapping it returns the mapped object.
\<close>

theorem C9_output_mapping:
  "(list_all plain_to outputs \<longrightarrow>
      lookup (applyNodeOutputs artifacts outputs) k =
        (if writes artifacts outputs k = [] then JUndefined
         else last (writes artifacts outputs k)))
   \<and> (list_all plain_to outputs \<longrightarrow> filter (\<lambda>x. out_to x = out_to entry) outputs = [entry] \<longrightarrow>
        (case byFrom artifacts (out_from entry) of
           Some a \<Rightarrow>
             a \<in> set artifacts \<and> manifest_from a = JStr (out_from entry)
             \<and> (extracted a \<longrightarrow> lookup (applyNodeOutputs artifacts outputs) (out_to entry) = a)
         | None \<Rightarrow>
             (\<forall>a\<in>set artifacts. manifest_from a \<noteq> JStr (out_from entry))
             \<and> lookup (applyNodeOutputs artifacts outputs) (out_to entry) =
                 (if defaultValue entry = JUndefined then JUndefined
                  else JObj [(''payload'', defaultValue entry)])))
   \<and> (fst (pollUntilDone cfg dl pid 0 rs) = Some (Inr raw) \<longrightarrow>
        list_all extracted (unwrapArtifacts raw)
        \<and> client_run cfg dl (Inr pid) rs None = Some (Inr (JArr (unwrapArtifacts raw)))
        \<and> client_run cfg dl (Inr pid) rs (Some []) = Some (Inr (JArr (unwrapArtifacts raw)))
        \<and> client_run cfg dl (Inr pid) rs (Some (e # es)) =
            Some (Inr (JObj (applyNodeOutputs (unwrapArtifacts raw) (e # es)))))"
proof (intro conjI impI)
  assume "list_all plain_to outputs"
  thus "lookup (applyNodeOutputs artifacts outputs) k =
        (if writes artifacts outputs k = [] then JUndefined
         else last (writes artifacts outputs k))"
    by (rule apply_lookup)
next
  assume pl: "list_all plain_to outputs"
    and single: "filter (\<lambda>x. out_to x = out_to entry) outputs = [entry]"
  note l = apply_lookup [OF pl, of artifacts "out_to entry"]
  note w = writes_single [OF single, of artifacts]
  show "case byFrom artifacts (out_from entry) of
           Some a \<Rightarrow>
             a \<in> set artifacts \<and> manifest_from a = JStr (out_from entry)
             \<and> (extracted a \<longrightarrow> lookup (applyNodeOutputs artifacts outputs) (out_to entry) = a)
         | None \<Rightarrow>
             (\<forall>a\<in>set artifacts. manifest_from a \<noteq> JStr (out_from entry))
             \<and> lookup (applyNodeOutputs artifacts outputs) (out_to entry) =
                 (if defaultValue entry = JUndefined then JUndefined
                  else JObj [(''payload'', defaultValue entry)])"
  proof (cases "byFrom artifacts (out_from entry)")
    case None
    have "resolve artifacts entry =
        (if defaultValue entry = JUndefined then None
         else Some (JObj [(''payload'', defaultValue entry)]))"
      by (simp add: resolve_def None)
    thus ?thesis
      using None byFrom_None [of artifacts "out_from entry"] l w by simp
  next
    case (Some a)
    have "lookup (applyNodeOutputs artifacts outputs) (out_to entry) = a" if "extracted a"
    proof -
      have "resolve artifacts entry = Some a"
        using that spread_artifact [of a] by (simp add: resolve_def Some extracted_def)
      thus ?thesis using l w by simp
    qed
    thus ?thesis using Some byFrom_Some [OF Some] by simp
  qed
next
  assume p: "fst (pollUntilDone cfg dl pid 0 rs) = Some (Inr raw)"
  show "list_all extracted (unwrapArtifacts raw)" using p by (rule poll_extracted)
  show "client_run cfg dl (Inr pid) rs None = Some (Inr (JArr (unwrapArtifacts raw)))"
    by (simp add: client_run_def p)
  show "client_run cfg dl (Inr pid) rs (Some []) = Some (Inr (JArr (unwrapArtifacts raw)))"
    by (simp add: client_run_def p)
  show "client_run cfg dl (Inr pid) rs (Some (e # es)) =
            Some (Inr (JObj (applyNodeOutputs (unwrapArtifacts raw) (e # es))))"
    by (simp add: client_run_def p)
qed

theorem C9_output_mapping_witness:
  "list_all plain_to mapping_example
   \<and> filter (\<lambda>x. out_to x = out_to (hd mapping_example)) mapping_example = [hd mapping_example]
   \<and> byFrom [artifact9, artifact8] (out_from (hd mapping_example)) = Some artifact9
   \<and> extracted artifact9
   \<and> lookup (applyNodeOutputs [artifact9, artifact8] mapping_example) ''image'' = artifact9
   \<and> lookup (applyNodeOutputs [artifact9, artifact8] mapping_example) ''mask'' =
       JObj [(''payload'', JStr ''none'')]
   \<and> (\<exists>raw. fst (pollUntilDone (new_pollCfg None None None) fixed_download ''p1'' 0
                     [Inr done_history]) = Some (Inr raw)
        \<and> client_run (new_pollCfg None None None) fixed_download (Inr ''p1'') [Inr done_history]
              None = Some (Inr (JArr (unwrapArtifacts raw))))"
proof -
  let ?cfg = "new_pollCfg None None None"
  let ?raw = "case fst (pollUntilDone ?cfg fixed_download ''p1'' 0 [Inr done_history]) of
                Some (Inr raw) \<Rightarrow> raw | _ \<Rightarrow> []"
  have pl: "list_all plain_to mapping_example" by code_simp
  have si: "filter (\<lambda>x. out_to x = out_to (hd mapping_example)) mapping_example
      = [hd mapping_example]" by code_simp
  have bf: "byFrom [artifact9, artifact8] (out_from (hd mapping_example)) = Some artifact9"
    by code_simp
  have ex: "extracted artifact9" by code_simp
  have im: "out_to (hd mapping_example) = ''image''" by code_simp
  have ma: "lookup (applyNodeOutputs [artifact9, artifact8] mapping_example) ''mask'' =
       JObj [(''payload'', JStr ''none'')]" by code_simp
  have po: "fst (pollUntilDone ?cfg fixed_download ''p1'' 0 [Inr done_history]) = Some (Inr ?raw)"
    by code_simp
  note t = C9_output_mapping [of mapping_example "[artifact9, artifact8]" "''image''"
      "hd mapping_example" ?cfg fixed_download "''p1''" "[Inr done_history]" ?raw]
  have "case byFrom [artifact9, artifact8] (out_from (hd mapping_example)) of
          Some a \<Rightarrow>
             a \<in> set [artifact9, artifact8] \<and> manifest_from a = JStr (out_from (hd mapping_example))
             \<and> (extracted a \<longrightarrow>
                  lookup (applyNodeOutputs [artifact9, artifact8] mapping_example)
                    (out_to (hd mapping_example)) = a)
        | None \<Rightarrow>
             (\<forall>a\<in>set [artifact9, artifact8]. manifest_from a \<noteq> JStr (out_from (hd mapping_example)))
             \<and> lookup (applyNodeOutputs [artifact9, artifact8] mapping_example)
                   (out_to (hd mapping_example)) =
                 (if defaultValue (hd mapping_example) = JUndefined then JUndefined
                  else JObj [(''payload'', defaultValue (hd mapping_example))])"
    using t pl si by blast
  hence lk: "lookup (applyNodeOutputs [artifact9, artifact8] mapping_example) ''image'' = artifact9"
    using ex by (simp add: bf im)
  have cr: "client_run ?cfg fixed_download (Inr ''p1'') [Inr done_history] None =
      Some (Inr (JArr (unwrapArtifacts ?raw)))"
    using t po by blast
  show ?thesis
  proof (intro conjI exI [of _ ?raw])
    show "list_all plain_to mapping_example" by (rule pl)
    show "filter (\<lambda>x. out_to x = out_to (hd mapping_example)) mapping_example
      = [hd mapping_example]" by (rule si)
    show "byFrom [artifact9, artifact8] (out_from (hd mapping_example)) = Some artifact9"
      by (rule bf)
    show "extracted artifact9" by (rule ex)
    show "lookup (applyNodeOutputs [artifact9, artifact8] mapping_example) ''image'' = artifact9"
      by (rule lk)
    show "lookup (applyNodeOutputs [artifact9, artifact8] mapping_example) ''mask'' =
       JObj [(''payload'', JStr ''none'')]" by (rule ma)
    show "fst (pollUntilDone ?cfg fixed_download ''p1'' 0 [Inr done_history]) = Some (Inr ?raw)"
      by (rule po)
    show "client_run ?cfg fixed_download (Inr ''p1'') [Inr done_history] None =
      Some (Inr (JArr (unwrapArtifacts ?raw)))" by (rule cr)
  qed
qed

text \<open>
  The claim as stated fails. An entry whose \<open>to\<close> is \<open>out.image\<close> is not written at the
  key \<open>out.image\<close> but at \<open>image\<close> inside an object at \<open>out\<close>; and of two entries with the
  same \<open>to\<close> the later one replaces what the earlier one wrote, although an artifact
  matches the earlier entry.
\<close>

theorem C9_output_mapping_counterexample:
  "manifest_from artifact9 = JStr ''9''
   \<and> applyNodeOutputs [artifact9, artifact8]
         [\<lparr> out_from = ''9'', out_to = ''out.image'', defaultValue = JUndefined \<rparr>] =
       [(''out'', JObj [(''image'', artifact9)])]
   \<and> lookup (applyNodeOutputs [artifact9, artifact8]
                 [\<lparr> out_from = ''9'', out_to = ''out.image'', defaultValue = JUndefined \<rparr>])
         ''out.image'' = JUndefined
   \<and> lookup (applyNodeOutputs [artifact9, artifact8]
                 [\<lparr> out_from = ''9'', out_to = ''image'', defaultValue = JUndefined \<rparr>,
                  \<lparr> out_from = ''8'', out_to = ''image'', defaultValue = JUndefined \<rparr>])
         ''image'' = artifact8
   \<and> artifact8 \<noteq> artifact9"
  by code_simp


end
